theory Spec2Isabelle
  imports Main
begin

section \<open>SmartCache (src/smart-cache.ts)\<close>

text \<open>
  Timestamps are the integer milliseconds returned by \<^verbatim>\<open>Date.now()\<close>; TTLs and the
  capacity are numbers of the same kind, so all three are modelled as \<^typ>\<open>int\<close>
  (non-integral, infinite and NaN numbers are outside the model). Every call of
  \<^verbatim>\<open>Date.now()\<close> in the source is an explicit clock argument of the model.
\<close>

record 'v CacheEntry =
  "value" :: 'v
  expiry :: int
  lastAccessed :: int

subsection \<open>The JavaScript Map holding the entries\<close>

text \<open>
  A \<^verbatim>\<open>Map<string, CacheEntry<T>>\<close> iterates in insertion order and holds each key once.
  It is an association list; \<open>Map_set\<close> overwrites in place when the key is present and
  appends otherwise, as \<^verbatim>\<open>Map.prototype.set\<close> does.
\<close>

fun Map_get :: "string \<Rightarrow> (string \<times> 'a) list \<Rightarrow> 'a option" where
  "Map_get k [] = None"
| "Map_get k ((k', v) # m) = (if k' = k then Some v else Map_get k m)"

definition Map_has :: "string \<Rightarrow> (string \<times> 'a) list \<Rightarrow> bool" where
  "Map_has k m = (Map_get k m \<noteq> None)"

fun Map_set :: "string \<Rightarrow> 'a \<Rightarrow> (string \<times> 'a) list \<Rightarrow> (string \<times> 'a) list" where
  "Map_set k v [] = [(k, v)]"
| "Map_set k v ((k', v') # m) = (if k' = k then (k, v) # m else (k', v') # Map_set k v m)"

fun Map_delete :: "string \<Rightarrow> (string \<times> 'a) list \<Rightarrow> (string \<times> 'a) list" where
  "Map_delete k [] = []"
| "Map_delete k ((k', v') # m) = (if k' = k then Map_delete k m else (k', v') # Map_delete k m)"

definition Map_keys :: "(string \<times> 'a) list \<Rightarrow> string list" where
  "Map_keys m = map fst m"

text \<open>The representation invariant of a Map: no key occurs twice.\<close>

definition Map_ok :: "(string \<times> 'a) list \<Rightarrow> bool" where
  "Map_ok m = distinct (Map_keys m)"

subsection \<open>The cache object\<close>

record 'v SmartCache =
  cache :: "(string \<times> 'v CacheEntry) list"
  maxSize :: int
  ttl :: int

definition new_SmartCache :: "int \<Rightarrow> int \<Rightarrow> 'v SmartCache" where
  "new_SmartCache m t = \<lparr>cache = [], maxSize = m, ttl = t\<rparr>"

text \<open>
  \<^verbatim>\<open>prune()\<close>: the loop over \<^verbatim>\<open>this.cache.entries()\<close>, deleting each expired entry
  from the Map and counting it. The first list is what is left to iterate, the second the
  Map being mutated.
\<close>

fun prune_loop ::
  "int \<Rightarrow> (string \<times> 'v CacheEntry) list \<Rightarrow> (string \<times> 'v CacheEntry) list \<Rightarrow> nat
     \<Rightarrow> (string \<times> 'v CacheEntry) list \<times> nat" where
  "prune_loop now [] m count = (m, count)"
| "prune_loop now ((key, entry) # rest) m count =
     (if expiry entry \<le> now then prune_loop now rest (Map_delete key m) (count + 1)
      else prune_loop now rest m count)"

definition prune :: "int \<Rightarrow> 'v SmartCache \<Rightarrow> nat \<times> 'v SmartCache" where
  "prune now c =
     (case prune_loop now (cache c) (cache c) 0 of (m, count) \<Rightarrow> (count, c\<lparr>cache := m\<rparr>))"

text \<open>
  \<^verbatim>\<open>evictLRU()\<close>: the scan keeps the first entry whose \<open>lastAccessed\<close> is strictly
  smaller than every earlier one; \<open>oldest\<close> starts as \<^verbatim>\<open>null\<close>.
\<close>

fun oldest_loop ::
  "(string \<times> 'v CacheEntry) list \<Rightarrow> (string \<times> int) option \<Rightarrow> (string \<times> int) option" where
  "oldest_loop [] oldest = oldest"
| "oldest_loop ((key, entry) # rest) oldest =
     (case oldest of
        None \<Rightarrow> oldest_loop rest (Some (key, lastAccessed entry))
      | Some (okey, otime) \<Rightarrow>
          if lastAccessed entry < otime then oldest_loop rest (Some (key, lastAccessed entry))
          else oldest_loop rest oldest)"

definition evictLRU :: "'v SmartCache \<Rightarrow> 'v SmartCache" where
  "evictLRU c =
     (case oldest_loop (cache c) None of
        None \<Rightarrow> c
      | Some (okey, otime) \<Rightarrow> c\<lparr>cache := Map_delete okey (cache c)\<rparr>)"

text \<open>
  \<^verbatim>\<open>set(key, value, customTTL?)\<close>. \<open>tprune\<close> is the clock read inside \<^verbatim>\<open>prune()\<close>,
  \<open>now\<close> the one read by \<^verbatim>\<open>set\<close> itself right after; \<open>customTTL\<close> is \<open>None\<close> for
  \<^verbatim>\<open>undefined\<close>.
\<close>

definition set_c ::
  "int \<Rightarrow> int \<Rightarrow> string \<Rightarrow> 'v \<Rightarrow> int option \<Rightarrow> 'v SmartCache \<Rightarrow> 'v SmartCache" where
  "set_c tprune now key v customTTL c0 =
     (let c1 = snd (prune tprune c0);
          t = (case customTTL of Some t' \<Rightarrow> t' | None \<Rightarrow> ttl c1);
          entry = \<lparr>value = v, expiry = now + t, lastAccessed = now\<rparr>;
          c2 = (if maxSize c1 \<le> int (length (cache c1)) \<and> \<not> Map_has key (cache c1)
                then evictLRU c1 else c1)
      in c2\<lparr>cache := Map_set key entry (cache c2)\<rparr>)"

text \<open>\<^verbatim>\<open>get(key)\<close>: \<open>None\<close> is \<^verbatim>\<open>null\<close>. The hit mutates the entry object in place.\<close>

definition get_c :: "int \<Rightarrow> string \<Rightarrow> 'v SmartCache \<Rightarrow> 'v option \<times> 'v SmartCache" where
  "get_c now key c =
     (case Map_get key (cache c) of
        None \<Rightarrow> (None, c)
      | Some entry \<Rightarrow>
          if expiry entry \<le> now then (None, c\<lparr>cache := Map_delete key (cache c)\<rparr>)
          else (Some (value entry),
                c\<lparr>cache := Map_set key (entry\<lparr>lastAccessed := now\<rparr>) (cache c)\<rparr>))"

text \<open>\<^verbatim>\<open>has(key)\<close>.\<close>

definition has_c :: "int \<Rightarrow> string \<Rightarrow> 'v SmartCache \<Rightarrow> bool \<times> 'v SmartCache" where
  "has_c now key c =
     (case Map_get key (cache c) of
        None \<Rightarrow> (False, c)
      | Some entry \<Rightarrow>
          if expiry entry \<le> now then (False, c\<lparr>cache := Map_delete key (cache c)\<rparr>)
          else (True, c))"

subsection \<open>RegExp objects and their \<open>test\<close> method\<close>

text \<open>
  A RegExp object, as \<^verbatim>\<open>invalidatePattern\<close> uses it: the pattern compiled to a matcher,
  the \<^verbatim>\<open>g\<close> and \<^verbatim>\<open>y\<close> flags, and the mutable \<^verbatim>\<open>lastIndex\<close>. \<open>matcher r input i\<close> is
  the match of the pattern that starts at index \<open>i\<close> of \<open>input\<close>, given by the index where
  it ends, or \<open>None\<close> when the pattern does not match there. Strings are lists of
  code units, so the search advances by one index at a time.
\<close>

record RegExp =
  matcher :: "string \<Rightarrow> nat \<Rightarrow> nat option"
  global :: bool
  sticky :: bool
  lastIndex :: nat

text \<open>
  The search loop of \<^verbatim>\<open>RegExp.prototype.exec\<close>: from index \<open>i\<close>, give up once
  \<open>i\<close> has passed the end of the input, stop at the first index where the matcher
  succeeds, and after a failure either stop (sticky) or try the next index.
\<close>

function exec_search ::
  "(string \<Rightarrow> nat \<Rightarrow> nat option) \<Rightarrow> bool \<Rightarrow> string \<Rightarrow> nat \<Rightarrow> nat option" where
  "exec_search m stick input i =
     (if length input < i then None
      else case m input i of
             Some e \<Rightarrow> Some e
           | None \<Rightarrow> if stick then None else exec_search m stick input (Suc i))"
  by pat_completeness auto
termination
  by (relation "measure (\<lambda>(m, stick, input, i). Suc (length input) - i)") auto

declare exec_search.simps [simp del]

text \<open>
  \<^verbatim>\<open>pattern.test(input)\<close>. Without the \<^verbatim>\<open>g\<close> and \<^verbatim>\<open>y\<close> flags the search starts at
  index 0 and \<^verbatim>\<open>lastIndex\<close> is neither read nor written. With one of them it starts at
  \<^verbatim>\<open>lastIndex\<close>, which becomes the end of the match on success and 0 on failure.
\<close>

definition RegExp_test :: "RegExp \<Rightarrow> string \<Rightarrow> bool \<times> RegExp" where
  "RegExp_test r input =
     (let start = (if global r \<or> sticky r then lastIndex r else 0)
      in case exec_search (matcher r) (sticky r) input start of
           None \<Rightarrow> (False, if global r \<or> sticky r then r\<lparr>lastIndex := 0\<rparr> else r)
         | Some e \<Rightarrow> (True, if global r \<or> sticky r then r\<lparr>lastIndex := e\<rparr> else r))"

subsection \<open>Invalidation, clearing and size\<close>

text \<open>
  \<^verbatim>\<open>invalidatePattern(pattern)\<close>: the loop over \<^verbatim>\<open>this.cache.keys()\<close>. Each
  \<^verbatim>\<open>pattern.test(key)\<close> may change the pattern object, which the next iteration
  uses. The result is the count, the cache, and the pattern object as the call leaves it.
\<close>

fun invalidate_loop ::
  "RegExp \<Rightarrow> string list \<Rightarrow> (string \<times> 'v CacheEntry) list \<Rightarrow> nat
     \<Rightarrow> (string \<times> 'v CacheEntry) list \<times> nat \<times> RegExp" where
  "invalidate_loop pattern [] m count = (m, count, pattern)"
| "invalidate_loop pattern (key # rest) m count =
     (case RegExp_test pattern key of
        (True, pattern') \<Rightarrow> invalidate_loop pattern' rest (Map_delete key m) (count + 1)
      | (False, pattern') \<Rightarrow> invalidate_loop pattern' rest m count)"

definition invalidatePattern ::
  "RegExp \<Rightarrow> 'v SmartCache \<Rightarrow> nat \<times> 'v SmartCache \<times> RegExp" where
  "invalidatePattern pattern c =
     (case invalidate_loop pattern (Map_keys (cache c)) (cache c) 0 of
        (m, count, pattern') \<Rightarrow> (count, c\<lparr>cache := m\<rparr>, pattern'))"

definition clear_c :: "'v SmartCache \<Rightarrow> 'v SmartCache" where
  "clear_c c = c\<lparr>cache := []\<rparr>"

definition size_c :: "'v SmartCache \<Rightarrow> nat" where
  "size_c c = length (cache c)"

subsection \<open>Sequences of calls on one cache\<close>

datatype 'v call =
    Set string 'v "int option" int int
  | Get string int
  | Has string int
  | InvalidatePattern RegExp
  | Clear
  | Size

text \<open>\<open>Set key value customTTL tprune now\<close> carries the two clock readings of the call.\<close>

fun exec_call :: "'v call \<Rightarrow> 'v SmartCache \<Rightarrow> 'v SmartCache" where
  "exec_call (Set key v customTTL tprune now) c = set_c tprune now key v customTTL c"
| "exec_call (Get key now) c = snd (get_c now key c)"
| "exec_call (Has key now) c = snd (has_c now key c)"
| "exec_call (InvalidatePattern pattern) c = fst (snd (invalidatePattern pattern c))"
| "exec_call Clear c = clear_c c"
| "exec_call Size c = c"

fun run :: "'v call list \<Rightarrow> 'v SmartCache \<Rightarrow> 'v SmartCache" where
  "run [] c = c"
| "run (x # xs) c = run xs (exec_call x c)"

text \<open>Whether a call is a \<^verbatim>\<open>set\<close> on the key \<open>k\<close>.\<close>

fun sets_key :: "string \<Rightarrow> 'v call \<Rightarrow> bool" where
  "sets_key k (Set key v customTTL tprune now) = (key = k)"
| "sets_key k x = False"

section \<open>File helpers (src/utils.ts)\<close>

text \<open>
  The helpers wrap Node's \<^verbatim>\<open>fs/promises\<close>. The file system beneath them is a state: the
  text of each existing file, the paths that cannot be created or written (the
  \<^verbatim>\<open>mkdir\<close> of the parent directory or the write itself rejects there), and the log of
  the calls made so far, so that "no I/O was performed" is "the disk did not change".
  \<^verbatim>\<open>fs.readFile\<close> rejects exactly when no file exists at the path.
\<close>

datatype io_call =
    FsReadFile string
  | FsMkdir string
  | FsWriteFile string string
  | FsAppendFile string string

text \<open>\<open>FsMkdir p\<close> is the recursive \<^verbatim>\<open>mkdir\<close> of \<^verbatim>\<open>path.dirname(p)\<close>.\<close>

record disk =
  files :: "string \<Rightarrow> string option"
  read_only :: "string \<Rightarrow> bool"
  io_log :: "io_call list"

text \<open>
  The errors that reach a caller of the cached file methods. The first three are the
  \<^verbatim>\<open>Error\<close> objects thrown by the helpers, whose message ends in \<^verbatim>\<open>path.basename\<close> of
  the carried path. \<open>SyntaxError\<close> is what \<^verbatim>\<open>new RegExp\<close> throws on an ill-formed
  pattern. \<open>UnmodelledPattern\<close> is not an outcome of the program: it marks a pattern
  outside the fragment of the RegExp syntax modelled below.
\<close>

datatype error =
    CouldNotReadFile string
  | CouldNotWriteFile string
  | CouldNotAppendFile string
  | SyntaxError string
  | UnmodelledPattern string

definition readFile :: "disk \<Rightarrow> string \<Rightarrow> (error + string) \<times> disk" where
  "readFile d filePath =
     (let d' = d\<lparr>io_log := io_log d @ [FsReadFile filePath]\<rparr>
      in case files d filePath of
           Some content \<Rightarrow> (Inr content, d')
         | None \<Rightarrow> (Inl (CouldNotReadFile filePath), d'))"

definition writeFile :: "disk \<Rightarrow> string \<Rightarrow> string \<Rightarrow> (error + unit) \<times> disk" where
  "writeFile d filePath content =
     (let d' = d\<lparr>io_log := io_log d @ [FsMkdir filePath]\<rparr>
      in if read_only d filePath then (Inl (CouldNotWriteFile filePath), d')
         else (Inr (),
               d'\<lparr>files := (files d)(filePath \<mapsto> content),
                  io_log := io_log d' @ [FsWriteFile filePath content]\<rparr>))"

definition appendFile :: "disk \<Rightarrow> string \<Rightarrow> string \<Rightarrow> (error + unit) \<times> disk" where
  "appendFile d filePath content =
     (let d' = d\<lparr>io_log := io_log d @ [FsMkdir filePath]\<rparr>
      in if read_only d filePath then (Inl (CouldNotAppendFile filePath), d')
         else (Inr (),
               d'\<lparr>files := (files d)(filePath \<mapsto>
                               (case files d filePath of None \<Rightarrow> content
                                | Some old \<Rightarrow> old @ content)),
                  io_log := io_log d' @ [FsAppendFile filePath content]\<rparr>))"

section \<open>Regular expressions built from a key\<close>

text \<open>
  \<^verbatim>\<open>new RegExp(source)\<close>, without flags, for the fragment of the pattern syntax whose
  meaning needs no backtracking: the assertions \<^verbatim>\<open>^\<close> and \<^verbatim>\<open>$\<close> (start and end of the
  input, there being no \<^verbatim>\<open>m\<close> flag), the wildcard \<^verbatim>\<open>.\<close> (any character but a line
  terminator), a backslash followed by a syntax character, a slash or a letter that
  starts no escape sequence (an identity escape: it matches that character), a
  parenthesised capturing group (with no alternative inside and no quantifier after it, it is
  the sequence of its items), and every character that is not a syntax character (it
  matches itself). A source with a quantifier, an alternative, a class, a group that
  starts with a question mark, an unbalanced parenthesis or any other escape is outside
  the fragment and parses to \<open>None\<close>. Characters are 8-bit, so the line terminators are
  LF and CR.
\<close>

definition backslash :: char where
  "backslash = CHR 0x5C"

datatype rx_item = Bol | Eol | AnyChar | Lit char

definition syntax_character :: "char \<Rightarrow> bool" where
  "syntax_character ch = (ch = backslash \<or> ch \<in> set ''^$.*+?()[]{}|'')"

definition identity_escape :: "char \<Rightarrow> bool" where
  "identity_escape ch =
     (syntax_character ch \<or> ch = CHR ''/''
      \<or> ch \<in> set ''ACEFGHIJKLMNOPQRTUVXYZ'' \<or> ch \<in> set ''aeghijlmopqyz'')"

definition line_terminator :: "char \<Rightarrow> bool" where
  "line_terminator ch = (ch = CHR 0x0A \<or> ch = CHR 0x0D)"

text \<open>\<open>depth\<close> counts the groups that are open at the current position.\<close>

fun rx_parse :: "nat \<Rightarrow> string \<Rightarrow> rx_item list option" where
  "rx_parse depth [] = (if depth = 0 then Some [] else None)"
| "rx_parse depth (ch # rest) =
     (if ch = CHR ''^'' then map_option ((#) Bol) (rx_parse depth rest)
      else if ch = CHR ''$'' then map_option ((#) Eol) (rx_parse depth rest)
      else if ch = CHR ''.'' then map_option ((#) AnyChar) (rx_parse depth rest)
      else if ch = backslash then
        (case rest of
           [] \<Rightarrow> None
         | esc # rest' \<Rightarrow>
             if identity_escape esc then map_option ((#) (Lit esc)) (rx_parse depth rest')
             else None)
      else if ch = CHR ''('' then
        (case rest of
           [] \<Rightarrow> None
         | next_ch # rest' \<Rightarrow>
             if next_ch = CHR ''?'' then None else rx_parse (Suc depth) rest)
      else if ch = CHR '')'' then
        (if depth = 0 then None else rx_parse (depth - 1) rest)
      else if syntax_character ch then None
      else map_option ((#) (Lit ch)) (rx_parse depth rest))"

text \<open>
  The matcher of a parsed pattern: the items in sequence from index \<open>i\<close> of the input.
\<close>

fun rx_match_at :: "rx_item list \<Rightarrow> string \<Rightarrow> nat \<Rightarrow> nat option" where
  "rx_match_at [] input i = Some i"
| "rx_match_at (Bol # items) input i = (if i = 0 then rx_match_at items input i else None)"
| "rx_match_at (Eol # items) input i =
     (if i = length input then rx_match_at items input i else None)"
| "rx_match_at (AnyChar # items) input i =
     (if i < length input \<and> \<not> line_terminator (input ! i)
      then rx_match_at items input (Suc i) else None)"
| "rx_match_at (Lit x # items) input i =
     (if i < length input \<and> input ! i = x then rx_match_at items input (Suc i) else None)"

definition RegExp_fragment :: "string \<Rightarrow> error + RegExp" where
  "RegExp_fragment source =
     (case rx_parse 0 source of
        None \<Rightarrow> Inl (UnmodelledPattern source)
      | Some items \<Rightarrow>
          Inr \<lparr>matcher = rx_match_at items, global = False, sticky = False, lastIndex = 0\<rparr>)"

section \<open>The cached file methods of ContextManager (src/context-manager.ts)\<close>

text \<open>\<^verbatim>\<open>fileCache = new SmartCache<string>(50, 10 * 60 * 1000)\<close>.\<close>

definition fileCache :: "string SmartCache" where
  "fileCache = new_SmartCache 50 (10 * 60 * 1000)"

text \<open>
  \<^verbatim>\<open>_readFile(filePath)\<close>. \<open>tget\<close> is the clock read by \<^verbatim>\<open>get\<close>, \<open>tprune\<close> and \<open>tset\<close> the
  two read by \<^verbatim>\<open>set\<close> once the file has been read. The calls of one method are taken
  without other tasks running in between.
\<close>

definition cm_readFile ::
  "int \<Rightarrow> int \<Rightarrow> int \<Rightarrow> disk \<Rightarrow> string SmartCache \<Rightarrow> string
     \<Rightarrow> (error + string) \<times> disk \<times> string SmartCache" where
  "cm_readFile tget tprune tset d c filePath =
     (case get_c tget filePath c of
        (Some cachedContent, c') \<Rightarrow> (Inr cachedContent, d, c')
      | (None, c') \<Rightarrow>
          (case readFile d filePath of
             (Inl err, d') \<Rightarrow> (Inl err, d', c')
           | (Inr fileContent, d') \<Rightarrow>
               (Inr fileContent, d', set_c tprune tset filePath fileContent None c')))"

text \<open>
  \<^verbatim>\<open>_writeFile(filePath, content)\<close> and \<^verbatim>\<open>_appendFile(filePath, content)\<close>. The RegExp
  constructor is the argument \<open>RegExp_new\<close>: from the pattern source to the error it throws
  or to the RegExp object it builds.
\<close>

definition cm_writeFile ::
  "(string \<Rightarrow> error + RegExp) \<Rightarrow> disk \<Rightarrow> string SmartCache \<Rightarrow> string \<Rightarrow> string
     \<Rightarrow> (error + unit) \<times> disk \<times> string SmartCache" where
  "cm_writeFile RegExp_new d c filePath content =
     (case writeFile d filePath content of
        (Inl err, d') \<Rightarrow> (Inl err, d', c)
      | (Inr u, d') \<Rightarrow>
          (case RegExp_new (''^'' @ filePath @ ''$'') of
             Inl err \<Rightarrow> (Inl err, d', c)
           | Inr pattern \<Rightarrow> (Inr (), d', fst (snd (invalidatePattern pattern c)))))"

definition cm_appendFile ::
  "(string \<Rightarrow> error + RegExp) \<Rightarrow> disk \<Rightarrow> string SmartCache \<Rightarrow> string \<Rightarrow> string
     \<Rightarrow> (error + unit) \<times> disk \<times> string SmartCache" where
  "cm_appendFile RegExp_new d c filePath content =
     (case appendFile d filePath content of
        (Inl err, d') \<Rightarrow> (Inl err, d', c)
      | (Inr u, d') \<Rightarrow>
          (case RegExp_new (''^'' @ filePath @ ''$'') of
             Inl err \<Rightarrow> (Inl err, d', c)
           | Inr pattern \<Rightarrow> (Inr (), d', fst (snd (invalidatePattern pattern c)))))"

section \<open>Auxiliary facts\<close>

subsection \<open>Map operations\<close>

lemma Map_delete_filter: "Map_delete k m = filter (\<lambda>p. fst p \<noteq> k) m"
  by (induction m) auto

lemma Map_has_iff: "Map_has k m \<longleftrightarrow> k \<in> fst ` set m"
  unfolding Map_has_def by (induction m) auto

lemma Map_get_in_set: "Map_get k m = Some v \<Longrightarrow> (k, v) \<in> set m"
  by (induction m) (auto split: if_splits)

lemma Map_get_distinct: "Map_ok m \<Longrightarrow> (k, v) \<in> set m \<Longrightarrow> Map_get k m = Some v"
  unfolding Map_ok_def Map_keys_def by (induction m) (auto simp: rev_image_eqI)

lemma Map_get_delete: "Map_get k' (Map_delete k m) = (if k' = k then None else Map_get k' m)"
  by (induction m) auto

lemma Map_get_set: "Map_get k' (Map_set k v m) = (if k' = k then Some v else Map_get k' m)"
  by (induction m) auto

lemma length_Map_set: "length (Map_set k v m) = (if Map_has k m then length m else Suc (length m))"
  unfolding Map_has_def by (induction m) (auto split: if_splits)

lemma Map_set_append: "\<not> Map_has k m \<Longrightarrow> Map_set k v m = m @ [(k, v)]"
  unfolding Map_has_def by (induction m) auto

lemma length_Map_delete_le: "length (Map_delete k m) \<le> length m"
  by (simp add: Map_delete_filter)

lemma length_Map_delete_less: "Map_has k m \<Longrightarrow> length (Map_delete k m) < length m"
  unfolding Map_has_def by (induction m) (auto simp: less_Suc_eq_le length_Map_delete_le)

lemma Map_delete_absent: "\<not> Map_has k m \<Longrightarrow> Map_delete k m = m"
  unfolding Map_has_def by (induction m) auto

lemma length_Map_delete_distinct:
  "Map_ok m \<Longrightarrow> Map_has k m \<Longrightarrow> Suc (length (Map_delete k m)) = length m"
  unfolding Map_ok_def Map_keys_def
proof (induction m)
  case Nil then show ?case by (simp add: Map_has_def)
next
  case (Cons p m)
  obtain k' v' where p: "p = (k', v')" by (cases p)
  show ?case
  proof (cases "k' = k")
    case True
    with Cons.prems p have "\<not> Map_has k m" by (auto simp: Map_has_iff)
    then show ?thesis using True p by (simp add: Map_delete_absent)
  next
    case False
    with Cons p show ?thesis by (auto simp: Map_has_def)
  qed
qed

lemma Map_ok_delete: "Map_ok m \<Longrightarrow> Map_ok (Map_delete k m)"
  unfolding Map_ok_def Map_keys_def by (simp add: Map_delete_filter distinct_map_filter)

lemma keys_Map_set: "set (Map_keys (Map_set k v m)) = insert k (set (Map_keys m))"
  unfolding Map_keys_def by (induction m) (simp_all, force)

lemma Map_keys_set_present: "Map_has k m \<Longrightarrow> Map_keys (Map_set k v m) = Map_keys m"
  unfolding Map_keys_def Map_has_def by (induction m) (auto split: if_splits)

lemma Map_ok_set: "Map_ok m \<Longrightarrow> Map_ok (Map_set k v m)"
proof (cases "Map_has k m")
  case True
  assume "Map_ok m"
  then show ?thesis using True by (simp add: Map_ok_def Map_keys_set_present)
next
  case False
  assume "Map_ok m"
  then show ?thesis using False by (auto simp: Map_ok_def Map_keys_def Map_set_append Map_has_iff)
qed

subsection \<open>The loops of the cache\<close>

lemma Map_delete_twice: "Map_delete k (Map_delete k' m) = Map_delete k' (Map_delete k m)"
  by (simp add: Map_delete_filter conj_commute)

lemma prune_loop_fst:
  "fst (prune_loop now xs m n) =
     filter (\<lambda>p. fst p \<notin> fst ` {q \<in> set xs. expiry (snd q) \<le> now}) m"
proof (induction xs arbitrary: m n)
  case Nil
  then show ?case by simp
next
  case (Cons x xs)
  obtain k e where x: "x = (k, e)" by (cases x)
  show ?case
  proof (cases "expiry e \<le> now")
    case True
    have "{q \<in> set (x # xs). expiry (snd q) \<le> now} = insert x {q \<in> set xs. expiry (snd q) \<le> now}"
      using True x by auto
    then show ?thesis using True x Cons.IH [of "Map_delete k m" "n + 1"]
      by (simp add: Map_delete_filter conj_commute)
  next
    case False
    have "{q \<in> set (x # xs). expiry (snd q) \<le> now} = {q \<in> set xs. expiry (snd q) \<le> now}"
      using False x by auto
    then show ?thesis using False x Cons.IH [of m n] by simp
  qed
qed

lemma prune_loop_snd:
  "snd (prune_loop now xs m n) = n + length (filter (\<lambda>p. expiry (snd p) \<le> now) xs)"
  by (induction xs arbitrary: m n) auto

lemma prune_loop_distinct:
  assumes "Map_ok m"
  shows "fst (prune_loop now m m n) = filter (\<lambda>p. now < expiry (snd p)) m"
proof -
  have "\<And>p. p \<in> set m \<Longrightarrow>
      (fst p \<notin> fst ` {q \<in> set m. expiry (snd q) \<le> now}) = (now < expiry (snd p))"
  proof -
    fix p assume p: "p \<in> set m"
    show "(fst p \<notin> fst ` {q \<in> set m. expiry (snd q) \<le> now}) = (now < expiry (snd p))"
    proof
      assume "fst p \<notin> fst ` {q \<in> set m. expiry (snd q) \<le> now}"
      with p show "now < expiry (snd p)" by force
    next
      assume live: "now < expiry (snd p)"
      show "fst p \<notin> fst ` {q \<in> set m. expiry (snd q) \<le> now}"
      proof
        assume "fst p \<in> fst ` {q \<in> set m. expiry (snd q) \<le> now}"
        then obtain q where q: "q \<in> set m" "expiry (snd q) \<le> now" "fst q = fst p" by auto
        from assms p q(1,3) have "q = p"
          unfolding Map_ok_def Map_keys_def by (simp add: inj_on_def distinct_map)
        with q(2) live show False by simp
      qed
    qed
  qed
  then show ?thesis unfolding prune_loop_fst by (intro filter_cong [OF refl])
qed

lemma prune_cache_eq:
  "cache (snd (prune now c)) = fst (prune_loop now (cache c) (cache c) 0)"
  by (simp add: prune_def split: prod.splits)

lemma prune_cache_set:
  "set (cache (snd (prune now c))) \<subseteq> {p \<in> set (cache c). now < expiry (snd p)}"
proof -
  have "cache (snd (prune now c)) = fst (prune_loop now (cache c) (cache c) 0)"
    by (simp add: prune_def split: prod.splits)
  then show ?thesis unfolding prune_loop_fst by force
qed

lemma prune_cache_distinct:
  "Map_ok (cache c) \<Longrightarrow>
   cache (snd (prune now c)) = filter (\<lambda>p. now < expiry (snd p)) (cache c)"
  using prune_loop_distinct [of "cache c" now 0] by (simp add: prune_cache_eq)

lemma prune_length_le: "length (cache (snd (prune now c))) \<le> length (cache c)"
proof -
  have "cache (snd (prune now c)) = fst (prune_loop now (cache c) (cache c) 0)"
    by (simp add: prune_def split: prod.splits)
  then show ?thesis unfolding prune_loop_fst by simp
qed

lemma prune_fields [simp]:
  "maxSize (snd (prune now c)) = maxSize c" "ttl (snd (prune now c)) = ttl c"
  by (simp_all add: prune_def split: prod.splits)

lemma oldest_loop_Some:
  "\<exists>k t. oldest_loop xs (Some (k0, t0)) = Some (k, t) \<and> t \<le> t0
      \<and> (\<forall>p \<in> set xs. t \<le> lastAccessed (snd p))
      \<and> ((k, t) = (k0, t0) \<or> (\<exists>e. (k, e) \<in> set xs \<and> lastAccessed e = t))"
proof (induction xs arbitrary: k0 t0)
  case Nil
  then show ?case by simp
next
  case (Cons x xs)
  obtain k1 e1 where x: "x = (k1, e1)" by (cases x)
  show ?case
  proof (cases "lastAccessed e1 < t0")
    case True
    from Cons.IH [of k1 "lastAccessed e1"] obtain k t where
      h: "oldest_loop xs (Some (k1, lastAccessed e1)) = Some (k, t)" "t \<le> lastAccessed e1"
         "\<forall>p \<in> set xs. t \<le> lastAccessed (snd p)"
         "(k, t) = (k1, lastAccessed e1) \<or> (\<exists>e. (k, e) \<in> set xs \<and> lastAccessed e = t)"
      by blast
    show ?thesis
      apply (rule exI [of _ k], rule exI [of _ t])
      using True x h by auto
  next
    case False
    from Cons.IH [of k0 t0] obtain k t where
      h: "oldest_loop xs (Some (k0, t0)) = Some (k, t)" "t \<le> t0"
         "\<forall>p \<in> set xs. t \<le> lastAccessed (snd p)"
         "(k, t) = (k0, t0) \<or> (\<exists>e. (k, e) \<in> set xs \<and> lastAccessed e = t)"
      by blast
    show ?thesis
      apply (rule exI [of _ k], rule exI [of _ t])
      using False x h by auto
  qed
qed

lemma oldest_loop_None_start:
  "xs \<noteq> [] \<Longrightarrow>
   \<exists>k e. oldest_loop xs None = Some (k, lastAccessed e) \<and> (k, e) \<in> set xs
      \<and> (\<forall>p \<in> set xs. lastAccessed e \<le> lastAccessed (snd p))"
proof (cases xs)
  case Nil
  assume "xs \<noteq> []" with Nil show ?thesis by simp
next
  case (Cons x rest)
  obtain k1 e1 where x: "x = (k1, e1)" by (cases x)
  from oldest_loop_Some [of rest k1 "lastAccessed e1"] obtain k t where
    h: "oldest_loop rest (Some (k1, lastAccessed e1)) = Some (k, t)" "t \<le> lastAccessed e1"
       "\<forall>p \<in> set rest. t \<le> lastAccessed (snd p)"
       "(k, t) = (k1, lastAccessed e1) \<or> (\<exists>e. (k, e) \<in> set rest \<and> lastAccessed e = t)"
    by blast
  from h(4) obtain e where e: "(k, e) \<in> set xs" "lastAccessed e = t"
    using Cons x by auto
  show ?thesis
    apply (rule exI [of _ k], rule exI [of _ e])
    using Cons x h e by auto
qed

lemma oldest_loop_Nil: "oldest_loop [] None = None"
  by simp

text \<open>
  Whatever the pattern object does between keys, the loop only deletes: it leaves the
  entries whose key is outside some set of the iterated keys.
\<close>

lemma invalidate_loop_filter:
  "\<exists>D. D \<subseteq> set ks \<and> fst (invalidate_loop pat ks m n) = filter (\<lambda>p. fst p \<notin> D) m"
proof (induction ks arbitrary: pat m n)
  case Nil
  have "fst (invalidate_loop pat [] m n) = filter (\<lambda>p. fst p \<notin> {}) m" by simp
  then show ?case by blast
next
  case (Cons k ks)
  obtain b pat' where t: "RegExp_test pat k = (b, pat')" by (cases "RegExp_test pat k")
  show ?case
  proof (cases b)
    case True
    from Cons.IH [of pat' "Map_delete k m" "n + 1"] obtain D where
      D: "D \<subseteq> set ks"
         "fst (invalidate_loop pat' ks (Map_delete k m) (n + 1))
            = filter (\<lambda>p. fst p \<notin> D) (Map_delete k m)"
      by blast
    have "fst (invalidate_loop pat (k # ks) m n) = filter (\<lambda>p. fst p \<notin> insert k D) m"
      using t True D(2) by (simp add: Map_delete_filter conj_commute)
    moreover have "insert k D \<subseteq> set (k # ks)" using D(1) by auto
    ultimately show ?thesis by blast
  next
    case False
    from Cons.IH [of pat' m n] obtain D where
      D: "D \<subseteq> set ks" "fst (invalidate_loop pat' ks m n) = filter (\<lambda>p. fst p \<notin> D) m"
      by blast
    have "fst (invalidate_loop pat (k # ks) m n) = filter (\<lambda>p. fst p \<notin> D) m"
      using t False D(2) by simp
    moreover have "D \<subseteq> set (k # ks)" using D(1) by auto
    ultimately show ?thesis by blast
  qed
qed

lemma invalidatePattern_cache_eq:
  "cache (fst (snd (invalidatePattern pat c)))
     = fst (invalidate_loop pat (Map_keys (cache c)) (cache c) 0)"
  by (simp add: invalidatePattern_def split: prod.splits)

lemma invalidatePattern_filter:
  "\<exists>D. cache (fst (snd (invalidatePattern pat c))) = filter (\<lambda>p. fst p \<notin> D) (cache c)"
  unfolding invalidatePattern_cache_eq
  using invalidate_loop_filter [of "Map_keys (cache c)" pat "cache c" 0] by blast

text \<open>
  A pattern without the \<^verbatim>\<open>g\<close> and \<^verbatim>\<open>y\<close> flags: \<^verbatim>\<open>test\<close> is a function of the
  key and leaves the object as it is, so the loop removes exactly the matching keys.
\<close>

lemma RegExp_test_stateless:
  "\<not> global r \<Longrightarrow> \<not> sticky r \<Longrightarrow>
   RegExp_test r input = (exec_search (matcher r) False input 0 \<noteq> None, r)"
  by (simp add: RegExp_test_def split: option.splits)

lemma invalidate_loop_stateless:
  assumes "\<not> global pat" and "\<not> sticky pat"
  shows "invalidate_loop pat ks m n
     = (filter (\<lambda>p. \<not> (fst p \<in> set ks \<and> fst (RegExp_test pat (fst p)))) m,
        n + length (filter (\<lambda>k. fst (RegExp_test pat k)) ks), pat)"
proof (induction ks arbitrary: m n)
  case Nil
  then show ?case by simp
next
  case (Cons k ks)
  have t: "RegExp_test pat k = (fst (RegExp_test pat k), pat)"
    using RegExp_test_stateless [OF assms, of k] by simp
  show ?case
  proof (cases "fst (RegExp_test pat k)")
    case True
    with t have "RegExp_test pat k = (True, pat)" by simp
    then show ?thesis using True Cons.IH [of "Map_delete k m" "n + 1"]
      by (auto simp: Map_delete_filter intro: filter_cong)
  next
    case False
    with t have "RegExp_test pat k = (False, pat)" by simp
    then show ?thesis using False Cons.IH [of m n]
      by (auto intro: filter_cong)
  qed
qed

lemma invalidatePattern_stateless:
  assumes "\<not> global pat" and "\<not> sticky pat"
  shows "invalidatePattern pat c
     = (length (filter (\<lambda>p. fst (RegExp_test pat (fst p))) (cache c)),
        c\<lparr>cache := filter (\<lambda>p. \<not> fst (RegExp_test pat (fst p))) (cache c)\<rparr>, pat)"
proof -
  have a: "filter (\<lambda>p. \<not> (fst p \<in> set (Map_keys (cache c)) \<and> fst (RegExp_test pat (fst p))))
             (cache c)
         = filter (\<lambda>p. \<not> fst (RegExp_test pat (fst p))) (cache c)"
    by (intro filter_cong [OF refl]) (auto simp: Map_keys_def)
  have b: "length (filter (\<lambda>k. fst (RegExp_test pat k)) (Map_keys (cache c)))
         = length (filter (\<lambda>p. fst (RegExp_test pat (fst p))) (cache c))"
    by (simp add: Map_keys_def filter_map comp_def)
  have "invalidate_loop pat (Map_keys (cache c)) (cache c) 0
      = (filter (\<lambda>p. \<not> fst (RegExp_test pat (fst p))) (cache c),
         length (filter (\<lambda>p. fst (RegExp_test pat (fst p))) (cache c)), pat)"
    unfolding invalidate_loop_stateless [OF assms] a b by simp
  then show ?thesis by (simp add: invalidatePattern_def)
qed

text \<open>
  The loop reads the keys only: changing the entries stored under the keys (their values,
  expiry times and access times) changes neither the count nor the keys removed.
\<close>

lemma Map_delete_map_entries:
  "Map_delete k (map (\<lambda>p. (fst p, f p)) m) = map (\<lambda>p. (fst p, f p)) (Map_delete k m)"
  by (induction m) auto

lemma invalidate_loop_map_entries:
  "invalidate_loop pat ks (map (\<lambda>p. (fst p, f p)) m) n
     = (case invalidate_loop pat ks m n of
          (m', count, pat') \<Rightarrow> (map (\<lambda>p. (fst p, f p)) m', count, pat'))"
proof (induction ks arbitrary: pat m n)
  case Nil
  then show ?case by simp
next
  case (Cons k ks)
  obtain b pat' where t: "RegExp_test pat k = (b, pat')" by (cases "RegExp_test pat k")
  show ?case
    using t Cons.IH [of pat' "Map_delete k m" "n + 1"] Cons.IH [of pat' m n]
    by (cases b) (simp_all add: Map_delete_map_entries)
qed

lemma invalidatePattern_reads_keys_only:
  "invalidatePattern pat (c\<lparr>cache := map (\<lambda>p. (fst p, f p)) (cache c)\<rparr>)
     = (case invalidatePattern pat c of
          (count, c', pat') \<Rightarrow>
            (count, c'\<lparr>cache := map (\<lambda>p. (fst p, f p)) (cache c')\<rparr>, pat'))"
proof -
  have k: "Map_keys (map (\<lambda>p. (fst p, f p)) (cache c)) = Map_keys (cache c)"
    by (simp add: Map_keys_def comp_def)
  show ?thesis
    by (simp add: invalidatePattern_def k invalidate_loop_map_entries split: prod.splits)
qed

text \<open>
  On a Map, whatever the pattern object does, the count is the number of entries removed.
\<close>

lemma invalidate_loop_count:
  assumes "distinct ks" and "set ks \<subseteq> fst ` set m" and "Map_ok m"
  shows "length (fst (invalidate_loop pat ks m n)) + fst (snd (invalidate_loop pat ks m n))
           = length m + n"
  using assms
proof (induction ks arbitrary: pat m n)
  case Nil
  then show ?case by simp
next
  case (Cons k ks)
  obtain b pat' where t: "RegExp_test pat k = (b, pat')" by (cases "RegExp_test pat k")
  from Cons.prems have d: "distinct ks" and kn: "k \<notin> set ks" and ks: "set ks \<subseteq> fst ` set m"
    and km: "Map_has k m"
    by (auto simp: Map_has_iff)
  show ?case
  proof (cases b)
    case True
    have sub: "set ks \<subseteq> fst ` set (Map_delete k m)"
      using ks kn by (force simp: Map_delete_filter)
    have ok: "Map_ok (Map_delete k m)" using Cons.prems(3) by (rule Map_ok_delete)
    have len: "Suc (length (Map_delete k m)) = length m"
      using Cons.prems(3) km by (rule length_Map_delete_distinct)
    from Cons.IH [OF d sub ok, of pat' "n + 1"] len t True show ?thesis by simp
  next
    case False
    from Cons.IH [OF d ks Cons.prems(3), of pat' n] t False show ?thesis by simp
  qed
qed

lemma invalidatePattern_count_removed:
  assumes "Map_ok (cache c)"
  shows "size_c (fst (snd (invalidatePattern pat c))) + fst (invalidatePattern pat c) = size_c c"
proof -
  have d: "distinct (Map_keys (cache c))" using assms by (simp add: Map_ok_def)
  have s: "set (Map_keys (cache c)) \<subseteq> fst ` set (cache c)" by (simp add: Map_keys_def)
  have "fst (invalidatePattern pat c)
      = fst (snd (invalidate_loop pat (Map_keys (cache c)) (cache c) 0))"
    by (simp add: invalidatePattern_def split: prod.splits)
  then show ?thesis
    unfolding size_c_def invalidatePattern_cache_eq
    using invalidate_loop_count [OF d s assms, of pat 0] by simp
qed

subsection \<open>Fields, sizes and the capacity bound\<close>

lemma evictLRU_fields [simp]:
  "maxSize (evictLRU c) = maxSize c" "ttl (evictLRU c) = ttl c"
  by (simp_all add: evictLRU_def split: option.splits prod.splits)

lemma evictLRU_nonempty:
  assumes "cache c \<noteq> []"
  shows "\<exists>k e. (k, e) \<in> set (cache c)
      \<and> (\<forall>p \<in> set (cache c). lastAccessed e \<le> lastAccessed (snd p))
      \<and> cache (evictLRU c) = Map_delete k (cache c)"
proof -
  from oldest_loop_None_start [OF assms] obtain k e where
    h: "oldest_loop (cache c) None = Some (k, lastAccessed e)" "(k, e) \<in> set (cache c)"
       "\<forall>p \<in> set (cache c). lastAccessed e \<le> lastAccessed (snd p)"
    by blast
  from h(1) have "cache (evictLRU c) = Map_delete k (cache c)"
    by (simp add: evictLRU_def)
  with h(2,3) show ?thesis by blast
qed

lemma evictLRU_subset: "set (cache (evictLRU c)) \<subseteq> set (cache c)"
  by (auto simp: evictLRU_def Map_delete_filter split: option.splits prod.splits)

lemma evictLRU_length_less:
  "cache c \<noteq> [] \<Longrightarrow> length (cache (evictLRU c)) < length (cache c)"
proof -
  assume ne: "cache c \<noteq> []"
  from evictLRU_nonempty [OF ne] obtain k e where
    h: "(k, e) \<in> set (cache c)" "cache (evictLRU c) = Map_delete k (cache c)" by blast
  from h(1) have "Map_has k (cache c)" by (force simp: Map_has_iff)
  with h(2) show ?thesis by (simp add: length_Map_delete_less)
qed

lemma set_c_fields [simp]:
  "maxSize (set_c tp now key v cttl c) = maxSize c" "ttl (set_c tp now key v cttl c) = ttl c"
  by (simp_all add: set_c_def Let_def)

lemma set_c_cache:
  "cache (set_c tp now key v cttl c) =
     Map_set key \<lparr>value = v, expiry = now + (case cttl of Some t' \<Rightarrow> t' | None \<Rightarrow> ttl c),
                  lastAccessed = now\<rparr>
       (cache (if maxSize c \<le> int (length (cache (snd (prune tp c))))
                  \<and> \<not> Map_has key (cache (snd (prune tp c)))
               then evictLRU (snd (prune tp c)) else snd (prune tp c)))"
  by (cases cttl) (simp_all add: set_c_def Let_def)

lemma set_c_size_le:
  assumes "1 \<le> maxSize c" and "int (length (cache c)) \<le> maxSize c"
  shows "int (length (cache (set_c tp now key v cttl c))) \<le> maxSize c"
proof -
  let ?c1 = "snd (prune tp c)"
  have l1: "int (length (cache ?c1)) \<le> maxSize c"
    using prune_length_le [of tp c] assms(2) by linarith
  show ?thesis
  proof (cases "Map_has key (cache ?c1)")
    case True
    then show ?thesis using l1 by (simp add: set_c_cache length_Map_set)
  next
    case False
    show ?thesis
    proof (cases "maxSize c \<le> int (length (cache ?c1))")
      case full: True
      let ?e = "\<lparr>value = v, expiry = now + (case cttl of Some t' \<Rightarrow> t' | None \<Rightarrow> ttl c),
                 lastAccessed = now\<rparr>"
      from full assms(1) have "cache ?c1 \<noteq> []" by auto
      from evictLRU_length_less [OF this]
      have a: "int (length (cache (evictLRU ?c1))) + 1 \<le> maxSize c" using l1 by linarith
      have b: "int (length (Map_set key ?e (cache (evictLRU ?c1))))
          \<le> int (length (cache (evictLRU ?c1))) + 1"
        by (simp add: length_Map_set)
      have eq: "cache (set_c tp now key v cttl c) = Map_set key ?e (cache (evictLRU ?c1))"
        using False full by (simp add: set_c_cache)
      show ?thesis unfolding eq using a b by linarith
    next
      case notfull: False
      then show ?thesis using False by (simp add: set_c_cache length_Map_set)
    qed
  qed
qed

lemma get_c_fields [simp]:
  "maxSize (snd (get_c now k c)) = maxSize c" "ttl (snd (get_c now k c)) = ttl c"
  by (simp_all add: get_c_def split: option.splits)

lemma has_c_fields [simp]:
  "maxSize (snd (has_c now k c)) = maxSize c" "ttl (snd (has_c now k c)) = ttl c"
  by (simp_all add: has_c_def split: option.splits)

lemma invalidatePattern_fields [simp]:
  "maxSize (fst (snd (invalidatePattern pat c))) = maxSize c"
  "ttl (fst (snd (invalidatePattern pat c))) = ttl c"
  by (simp_all add: invalidatePattern_def split: prod.splits)

lemma get_c_length_le: "length (cache (snd (get_c now k c))) \<le> length (cache c)"
  by (auto simp: get_c_def length_Map_set length_Map_delete_le Map_has_def split: option.splits)

lemma has_c_length_le: "length (cache (snd (has_c now k c))) \<le> length (cache c)"
  by (auto simp: has_c_def length_Map_delete_le split: option.splits)

lemma exec_call_maxSize [simp]: "maxSize (exec_call x c) = maxSize c"
  by (cases x) (simp_all add: clear_c_def)

lemma exec_call_size_le:
  assumes "1 \<le> maxSize c" and "int (length (cache c)) \<le> maxSize c"
  shows "int (length (cache (exec_call x c))) \<le> maxSize c"
proof (cases x)
  case (Set key v cttl tp now)
  then show ?thesis using set_c_size_le [OF assms] by simp
next
  case (Get key now)
  then show ?thesis using get_c_length_le [of now key c] assms(2) by simp
next
  case (Has key now)
  then show ?thesis using has_c_length_le [of now key c] assms(2) by simp
next
  case (InvalidatePattern pat)
  from invalidatePattern_filter [of pat c] obtain D where
    eq: "cache (exec_call x c) = filter (\<lambda>p. fst p \<notin> D) (cache c)"
    using InvalidatePattern by auto
  have le: "int (length (filter (\<lambda>p. fst p \<notin> D) (cache c))) \<le> int (length (cache c))"
    by simp
  show ?thesis unfolding eq using assms(2) le by linarith
next
  case Clear
  then show ?thesis using assms(1) by (simp add: clear_c_def)
next
  case Size
  then show ?thesis using assms(2) by simp
qed

lemma run_size_le:
  "1 \<le> maxSize c \<Longrightarrow> int (length (cache c)) \<le> maxSize c \<Longrightarrow>
   int (length (cache (run calls c))) \<le> maxSize c \<and> maxSize (run calls c) = maxSize c"
proof (induction calls arbitrary: c)
  case Nil
  then show ?case by simp
next
  case (Cons x xs)
  have "1 \<le> maxSize (exec_call x c)" using Cons.prems(1) by simp
  moreover have "int (length (cache (exec_call x c))) \<le> maxSize (exec_call x c)"
    using exec_call_size_le [OF Cons.prems] by simp
  ultimately show ?case using Cons.IH [of "exec_call x c"] by simp
qed

subsection \<open>Lookups after each operation\<close>

lemma Map_set_subset: "set (Map_set k e m) \<subseteq> insert (k, e) (set m)"
  by (induction m) (auto split: if_splits)

lemma Map_get_filter_keys:
  "Map_get k (filter (\<lambda>p. Q (fst p)) m) = (if Q k then Map_get k m else None)"
  by (induction m) auto

lemma Map_ok_filter: "Map_ok m \<Longrightarrow> Map_ok (filter P m)"
  unfolding Map_ok_def Map_keys_def by (rule distinct_map_filter)

lemma Map_get_prune:
  "Map_get k (cache (snd (prune tp c))) = Some e \<Longrightarrow> Map_get k (cache c) = Some e"
  unfolding prune_cache_eq prune_loop_fst
  using Map_get_filter_keys
    [of k "\<lambda>x. x \<notin> fst ` {q \<in> set (cache c). expiry (snd q) \<le> tp}" "cache c"]
  by (simp split: if_splits)

lemma Map_get_evictLRU:
  "Map_get k (cache (evictLRU c)) = Some e \<Longrightarrow> Map_get k (cache c) = Some e"
  by (auto simp: evictLRU_def Map_get_delete split: option.splits prod.splits if_splits)

lemma Map_get_set_c_other:
  assumes "Map_get k (cache (set_c tp now key v cttl c)) = Some e" and "key \<noteq> k"
  shows "Map_get k (cache c) = Some e"
proof -
  let ?c1 = "snd (prune tp c)"
  let ?c2 = "if maxSize c \<le> int (length (cache ?c1)) \<and> \<not> Map_has key (cache ?c1)
             then evictLRU ?c1 else ?c1"
  from assms have "Map_get k (cache ?c2) = Some e"
    unfolding set_c_cache by (simp add: Map_get_set)
  then have "Map_get k (cache ?c1) = Some e"
    using Map_get_evictLRU [of k ?c1 e] by (simp split: if_splits)
  then show ?thesis by (rule Map_get_prune)
qed

lemma Map_get_get_c:
  "Map_get k (cache (snd (get_c now k' c))) = Some e \<Longrightarrow>
   \<exists>e0. Map_get k (cache c) = Some e0 \<and> expiry e0 = expiry e"
  by (auto simp: get_c_def Map_get_delete Map_get_set split: option.splits if_splits)

lemma Map_get_has_c:
  "Map_get k (cache (snd (has_c now k' c))) = Some e \<Longrightarrow> Map_get k (cache c) = Some e"
  by (auto simp: has_c_def Map_get_delete split: option.splits if_splits)

lemma Map_get_invalidatePattern:
  assumes "Map_get k (cache (fst (snd (invalidatePattern pat c)))) = Some e"
  shows "Map_get k (cache c) = Some e"
proof -
  from invalidatePattern_filter [of pat c] obtain D where
    eq: "cache (fst (snd (invalidatePattern pat c))) = filter (\<lambda>p. fst p \<notin> D) (cache c)"
    by blast
  from assms show ?thesis
    unfolding eq using Map_get_filter_keys [of k "\<lambda>x. x \<notin> D" "cache c"]
    by (simp split: if_splits)
qed

lemma Map_get_exec_call:
  assumes "Map_get k (cache (exec_call x c)) = Some e" and "\<not> sets_key k x"
  shows "\<exists>e0. Map_get k (cache c) = Some e0 \<and> expiry e0 = expiry e"
proof (cases x)
  case (Set key v cttl tp now)
  with assms show ?thesis using Map_get_set_c_other [of k tp now key v cttl c e] by simp
next
  case (Get key now)
  with assms show ?thesis using Map_get_get_c [of k now key c e] by simp
next
  case (Has key now)
  with assms show ?thesis using Map_get_has_c [of k now key c e] by simp
next
  case (InvalidatePattern pat)
  with assms show ?thesis using Map_get_invalidatePattern [of k pat c e] by simp
next
  case Clear
  with assms show ?thesis by (simp add: clear_c_def)
next
  case Size
  with assms show ?thesis by simp
qed

lemma Map_get_run:
  "Map_get k (cache (run calls c)) = Some e \<Longrightarrow> list_all (\<lambda>x. \<not> sets_key k x) calls \<Longrightarrow>
   \<exists>e0. Map_get k (cache c) = Some e0 \<and> expiry e0 = expiry e"
proof (induction calls arbitrary: c)
  case Nil
  then show ?case by simp
next
  case (Cons x xs)
  from Cons.prems have "\<exists>e1. Map_get k (cache (exec_call x c)) = Some e1 \<and> expiry e1 = expiry e"
    using Cons.IH [of "exec_call x c"] by simp
  then obtain e1 where e1: "Map_get k (cache (exec_call x c)) = Some e1" "expiry e1 = expiry e"
    by blast
  from Cons.prems(2) have "\<not> sets_key k x" by simp
  from Map_get_exec_call [OF e1(1) this] e1(2) show ?case by auto
qed

lemma get_c_expired_None:
  "\<forall>e. Map_get k (cache c) = Some e \<longrightarrow> expiry e \<le> now \<Longrightarrow> fst (get_c now k c) = None"
  by (simp add: get_c_def split: option.splits)

lemma has_c_expired_False:
  "\<forall>e. Map_get k (cache c) = Some e \<longrightarrow> expiry e \<le> now \<Longrightarrow> \<not> fst (has_c now k c)"
  by (simp add: has_c_def split: option.splits)

lemma Map_ok_set_c: "Map_ok (cache c) \<Longrightarrow> Map_ok (cache (set_c tp now key v cttl c))"
  unfolding set_c_cache
  by (auto simp: prune_cache_distinct evictLRU_def intro!: Map_ok_set Map_ok_filter Map_ok_delete
      split: option.splits prod.splits)

lemma Map_ok_exec_call: "Map_ok (cache c) \<Longrightarrow> Map_ok (cache (exec_call x c))"
proof (cases x)
  case (Set key v cttl tp now)
  assume "Map_ok (cache c)"
  with Set show ?thesis by (simp add: Map_ok_set_c)
next
  case (Get key now)
  assume "Map_ok (cache c)"
  with Get show ?thesis
    by (auto simp: get_c_def intro: Map_ok_set Map_ok_delete split: option.splits)
next
  case (Has key now)
  assume "Map_ok (cache c)"
  with Has show ?thesis
    by (auto simp: has_c_def intro: Map_ok_delete split: option.splits)
next
  case (InvalidatePattern pat)
  assume "Map_ok (cache c)"
  with InvalidatePattern show ?thesis
    using invalidatePattern_filter [of pat c] by (auto simp: Map_ok_filter)
next
  case Clear
  then show ?thesis by (simp add: clear_c_def Map_ok_def Map_keys_def)
next
  case Size
  assume "Map_ok (cache c)"
  with Size show ?thesis by simp
qed

text \<open>Every cache reached from the constructor holds each key once.\<close>

lemma Map_ok_run: "Map_ok (cache c) \<Longrightarrow> Map_ok (cache (run calls c))"
  by (induction calls arbitrary: c) (simp_all add: Map_ok_exec_call)

lemma Map_ok_new: "Map_ok (cache (run calls (new_SmartCache m t)))"
  by (rule Map_ok_run) (simp add: new_SmartCache_def Map_ok_def Map_keys_def)

subsection \<open>The cached file methods\<close>

lemma get_c_None_absent:
  "fst (get_c now k c) = None \<Longrightarrow> \<not> Map_has k (cache (snd (get_c now k c)))"
  by (auto simp: get_c_def Map_has_def Map_get_delete split: option.splits if_splits)

lemma get_c_None_subset:
  "fst (get_c now k c) = None \<Longrightarrow> set (cache (snd (get_c now k c))) \<subseteq> set (cache c)"
  by (auto simp: get_c_def Map_delete_filter split: option.splits if_splits)

lemmas rx_eval = RegExp_fragment_def backslash_def syntax_character_def identity_escape_def
  line_terminator_def RegExp_test_def exec_search.simps

text \<open>
  The pattern built from a path is not an exact match of that path. Parentheses in the
  path form a group, and each backslash of a Windows path escapes the character after it.
\<close>

lemma posix_key_not_matched:
  "RegExp_fragment (''^'' @ ''/home/dev/app (copy)/.context/CURRENT_STATE.md'' @ ''$'') = Inr r
   \<Longrightarrow> \<not> fst (RegExp_test r ''/home/dev/app (copy)/.context/CURRENT_STATE.md'')
       \<and> fst (RegExp_test r ''/home/dev/app copy/.context/CURRENT_STATE.md'')"
  by (auto simp: rx_eval)

lemma windows_key_not_matched:
  "RegExp_fragment (''^'' @ (''C:'' @ backslash # ''proj'' @ backslash # ''.context'' @ backslash # ''CURRENT_STATE.md'') @ ''$'')
     = Inr r \<Longrightarrow> \<not> fst (RegExp_test r (''C:'' @ backslash # ''proj'' @ backslash # ''.context'' @ backslash # ''CURRENT_STATE.md''))"
  by (auto simp: rx_eval)

text \<open>
  A Windows path: the file is cached by a read and then written; the pattern built by
  \<^verbatim>\<open>_writeFile\<close> does not match the key, and the next read returns the cached text.
\<close>

lemma cm_stale_read_windows_path:
  "(let K = ''C:'' @ backslash # ''proj'' @ backslash # ''.context'' @ backslash # ''CURRENT_STATE.md'';
        d0 = \<lparr>files = [K \<mapsto> ''A''], read_only = (\<lambda>p. False), io_log = []\<rparr>;
        (r1, d1, c1) = cm_readFile 0 0 0 d0 fileCache K;
        (r2, d2, c2) = cm_writeFile RegExp_fragment d1 c1 K ''B'';
        (r3, d3, c3) = cm_readFile 1 1 1 d2 c2 K
    in r1 = Inr ''A'' \<and> r2 = Inr () \<and> files d2 K = Some ''B'' \<and> c2 = c1 \<and> r3 = Inr ''A'')"
  by (simp add: rx_eval Let_def cm_readFile_def cm_writeFile_def fileCache_def new_SmartCache_def
      get_c_def set_c_def prune_def Map_has_def readFile_def writeFile_def
      invalidatePattern_def Map_keys_def)

text \<open>
  The dot of a path matches any character: writing \<^verbatim>\<open>a.md\<close> also drops the cached
  \<^verbatim>\<open>axmd\<close>.
\<close>

lemma cm_writeFile_drops_other_key:
  "(let c = \<lparr>cache = [(''a.md'', \<lparr>value = ''A'', expiry = 600000, lastAccessed = 0\<rparr>),
                      (''axmd'', \<lparr>value = ''X'', expiry = 600000, lastAccessed = 0\<rparr>)],
             maxSize = 50, ttl = 600000\<rparr>;
        d = \<lparr>files = Map.empty, read_only = (\<lambda>p. False), io_log = []\<rparr>;
        (r, d', c') = cm_writeFile RegExp_fragment d c ''a.md'' ''B''
    in r = Inr () \<and> cache c' = [])"
  by (simp add: rx_eval Let_def cm_writeFile_def writeFile_def invalidatePattern_def Map_keys_def)

text \<open>
  For a key without syntax characters the pattern is the exact match, and a successful
  write followed by a read returns the written text.
\<close>

lemma rx_parse_plain:
  "\<forall>ch \<in> set k. \<not> syntax_character ch \<Longrightarrow> rx_parse 0 (k @ ''$'') = Some (map Lit k @ [Eol])"
proof (induction k)
  case Nil
  then show ?case by (simp add: backslash_def)
next
  case (Cons ch k)
  from Cons.prems have "\<not> syntax_character ch" by simp
  then have "ch \<noteq> CHR ''^''" "ch \<noteq> CHR ''$''" "ch \<noteq> CHR ''.''" "ch \<noteq> backslash"
    "ch \<noteq> CHR ''(''" "ch \<noteq> CHR '')''"
    by (auto simp: syntax_character_def)
  with Cons show ?case by simp
qed

lemma rx_match_at_literal:
  "rx_match_at (map Lit k @ [Eol]) input i
     = (if i \<le> length input \<and> drop i input = k then Some (length input) else None)"
proof (induction k arbitrary: i)
  case Nil
  then show ?case by auto
next
  case (Cons x k)
  show ?case
  proof (cases "i < length input")
    case True
    then have "drop i input = input ! i # drop (Suc i) input"
      by (simp add: Cons_nth_drop_Suc)
    then show ?thesis using True Cons.IH [of "Suc i"] by auto
  next
    case False
    then show ?thesis by auto
  qed
qed

lemma exec_search_Bol_later:
  "0 < i \<Longrightarrow> exec_search (rx_match_at (Bol # items)) stick input i = None"
proof (induction "Suc (length input) - i" arbitrary: i)
  case 0
  then show ?case by (simp add: exec_search.simps)
next
  case (Suc n)
  from Suc.hyps(2) have "n = Suc (length input) - Suc i" by simp
  from Suc.hyps(1) [OF this] have "exec_search (rx_match_at (Bol # items)) stick input (Suc i) = None"
    by simp
  then show ?case using Suc.prems by (subst exec_search.simps) auto
qed

lemma RegExp_fragment_plain:
  assumes "\<forall>ch \<in> set k. \<not> syntax_character ch"
  shows "\<exists>r. RegExp_fragment (''^'' @ k @ ''$'') = Inr r \<and> \<not> global r \<and> \<not> sticky r
            \<and> (\<forall>key. fst (RegExp_test r key) = (key = k))"
proof -
  let ?r = "\<lparr>matcher = rx_match_at (Bol # map Lit k @ [Eol]), global = False, sticky = False,
             lastIndex = 0\<rparr>"
  have "rx_parse 0 (''^'' @ k @ ''$'') = Some (Bol # map Lit k @ [Eol])"
    using rx_parse_plain [OF assms] by simp
  then have r: "RegExp_fragment (''^'' @ k @ ''$'') = Inr ?r"
    by (simp add: RegExp_fragment_def)
  have "fst (RegExp_test ?r key) = (key = k)" for key
  proof -
    have "exec_search (rx_match_at (Bol # map Lit k @ [Eol])) False key 0
        = (if key = k then Some (length key) else None)"
      by (subst exec_search.simps) (simp add: rx_match_at_literal exec_search_Bol_later)
    then show ?thesis by (simp add: RegExp_test_def)
  qed
  with r show ?thesis by auto
qed

lemma cm_write_then_read_plain_key:
  assumes plain: "\<forall>ch \<in> set k. \<not> syntax_character ch" and w: "\<not> read_only d k"
  shows "fst (cm_writeFile RegExp_fragment d c k content) = Inr ()
     \<and> cache (snd (snd (cm_writeFile RegExp_fragment d c k content)))
         = filter (\<lambda>p. fst p \<noteq> k) (cache c)
     \<and> fst (cm_readFile tget tprune tset
              (fst (snd (cm_writeFile RegExp_fragment d c k content)))
              (snd (snd (cm_writeFile RegExp_fragment d c k content))) k) = Inr content"
proof -
  from RegExp_fragment_plain [OF plain] obtain r where
    r: "RegExp_fragment (''^'' @ k @ ''$'') = Inr r" "\<not> global r" "\<not> sticky r"
       "\<forall>key. fst (RegExp_test r key) = (key = k)"
    by blast
  let ?d' = "d\<lparr>files := (files d)(k \<mapsto> content),
               io_log := io_log d @ [FsMkdir k, FsWriteFile k content]\<rparr>"
  let ?c' = "fst (snd (invalidatePattern r c))"
  have wr: "cm_writeFile RegExp_fragment d c k content = (Inr (), ?d', ?c')"
    using w r(1) by (simp add: cm_writeFile_def writeFile_def Let_def)
  have cc: "cache ?c' = filter (\<lambda>p. fst p \<noteq> k) (cache c)"
    unfolding invalidatePattern_stateless [OF r(2,3)] by (simp add: r(4))
  have "Map_get k (cache ?c') = None"
    unfolding cc using Map_get_filter_keys [of k "\<lambda>x. x \<noteq> k" "cache c"] by simp
  then have g: "get_c tget k ?c' = (None, ?c')" by (simp add: get_c_def)
  have rd: "readFile ?d' k = (Inr content, ?d'\<lparr>io_log := io_log ?d' @ [FsReadFile k]\<rparr>)"
    by (simp add: readFile_def Let_def)
  have "fst (cm_readFile tget tprune tset ?d' ?c' k) = Inr content"
    by (simp add: cm_readFile_def g rd)
  then show ?thesis unfolding wr using cc by simp
qed

lemma prune_snd_eq:
  "snd (prune now c) = c\<lparr>cache := fst (prune_loop now (cache c) (cache c) 0)\<rparr>"
  by (simp add: prune_def split: prod.splits)

lemma prune_distinct:
  "Map_ok (cache c) \<Longrightarrow>
   snd (prune now c) = c\<lparr>cache := filter (\<lambda>p. now < expiry (snd p)) (cache c)\<rparr>"
  by (simp add: prune_snd_eq prune_loop_distinct)

text \<open>
  A \<^verbatim>\<open>set\<close> of a new key on a non-empty swept store that passes the capacity test:
  one entry of minimal \<open>lastAccessed\<close> makes room.
\<close>

lemma set_c_evicts_one:
  assumes ok: "Map_ok (cache c)"
    and s: "s = cache (snd (prune tprune c))"
    and full: "maxSize c \<le> int (length s)"
    and nonempty: "s \<noteq> []"
    and new: "\<not> Map_has key s"
  shows "\<exists>k0 e0. (k0, e0) \<in> set s
      \<and> (\<forall>p \<in> set s. lastAccessed e0 \<le> lastAccessed (snd p))
      \<and> cache (set_c tprune now key v customTTL c)
          = filter (\<lambda>p. fst p \<noteq> k0) s
            @ [(key, \<lparr>value = v,
                      expiry = now + (case customTTL of Some t' \<Rightarrow> t' | None \<Rightarrow> ttl c),
                      lastAccessed = now\<rparr>)]
      \<and> Suc (length (filter (\<lambda>p. fst p \<noteq> k0) s)) = length s"
proof -
  let ?c1 = "snd (prune tprune c)"
  let ?e = "\<lparr>value = v, expiry = now + (case customTTL of Some t' \<Rightarrow> t' | None \<Rightarrow> ttl c),
             lastAccessed = now\<rparr>"
  have oks: "Map_ok s" unfolding s using ok by (simp add: prune_cache_distinct Map_ok_filter)
  from nonempty have ne: "cache ?c1 \<noteq> []" unfolding s by simp
  from evictLRU_nonempty [OF ne] obtain k0 e0 where
    h: "(k0, e0) \<in> set s" "\<forall>p \<in> set s. lastAccessed e0 \<le> lastAccessed (snd p)"
       "cache (evictLRU ?c1) = Map_delete k0 s"
    unfolding s by blast
  have hk0: "Map_has k0 s" using h(1) by (force simp: Map_has_iff)
  have "\<not> Map_has key (Map_delete k0 s)"
    using new by (simp add: Map_has_def Map_get_delete)
  then have app: "Map_set key ?e (Map_delete k0 s) = Map_delete k0 s @ [(key, ?e)]"
    by (rule Map_set_append)
  have "cache (set_c tprune now key v customTTL c) = Map_set key ?e (cache (evictLRU ?c1))"
    using full new unfolding s by (simp add: set_c_cache)
  then have res: "cache (set_c tprune now key v customTTL c)
      = filter (\<lambda>p. fst p \<noteq> k0) s @ [(key, ?e)]"
    unfolding h(3) app by (simp only: Map_delete_filter)
  have len: "Suc (length (filter (\<lambda>p. fst p \<noteq> k0) s)) = length s"
    using length_Map_delete_distinct [OF oks hk0] by (simp add: Map_delete_filter)
  from h(1,2) res len show ?thesis by blast
qed

section \<open>The claims about the cache\<close>

text \<open>
  Claim C1, for capacities of at least one. Starting from a freshly constructed cache
  with \<open>maxSize = m \<ge> 1\<close> and any default TTL, after every sequence of calls the number of
  stored entries is at most \<open>m\<close>; every prefix of a sequence is a sequence, so this holds in
  particular right after each \<^verbatim>\<open>set\<close> returns.
\<close>

theorem C1_size_within_capacity:
  "1 \<le> m \<Longrightarrow> int (size_c (run calls (new_SmartCache m t))) \<le> m"
  using run_size_le [of "new_SmartCache m t" calls] by (simp add: new_SmartCache_def size_c_def)

text \<open>
  The scenario of the specification: capacity 2, three distinct keys inserted.
\<close>

theorem C1_size_within_capacity_witness:
  "(1::int) \<le> 2 \<and>
   int (size_c (run [Set ''a'' (1::int) None 0 0, Set ''b'' 2 None 1 1, Set ''c'' 3 None 2 2]
                  (new_SmartCache 2 1000))) \<le> 2"
  using C1_size_within_capacity [of 2 "[Set ''a'' (1::int) None 0 0, Set ''b'' 2 None 1 1, Set ''c'' 3 None 2 2]" 1000]
  by simp

text \<open>
  Claim C1 as stated covers every capacity. With \<open>maxSize = 0\<close> the capacity test of the
  first \<^verbatim>\<open>set\<close> succeeds, \<^verbatim>\<open>evictLRU\<close> finds nothing to remove in the empty Map, and
  the entry is inserted all the same: one entry is stored under capacity zero.
\<close>

theorem C1_capacity_zero_counterexample:
  "\<not> int (size_c (run [Set ''a'' (1::int) None 0 0] (new_SmartCache 0 1000))) \<le> 0"
  by (simp add: size_c_def set_c_def prune_def new_SmartCache_def evictLRU_def Map_has_def)

text \<open>
  Claim C3. When the entry stored under \<open>k\<close> has \<open>expiry \<le> now\<close>, \<^verbatim>\<open>get(k)\<close> returns
  \<^verbatim>\<open>null\<close> and deletes the entry: the key is gone, every other entry is kept as it was,
  and \<^verbatim>\<open>size()\<close> is strictly smaller than before (smaller by exactly one on a Map,
  whose keys are distinct).
\<close>

theorem C3_get_expired_removes:
  assumes "Map_get k (cache c) = Some e" and "expiry e \<le> now"
  shows "fst (get_c now k c) = None
       \<and> \<not> Map_has k (cache (snd (get_c now k c)))
       \<and> size_c (snd (get_c now k c)) < size_c c
       \<and> (Map_ok (cache c) \<longrightarrow> Suc (size_c (snd (get_c now k c))) = size_c c)
       \<and> cache (snd (get_c now k c)) = filter (\<lambda>p. fst p \<noteq> k) (cache c)"
proof -
  have g: "get_c now k c = (None, c\<lparr>cache := Map_delete k (cache c)\<rparr>)"
    using assms by (simp add: get_c_def)
  have h: "Map_has k (cache c)" using assms(1) by (simp add: Map_has_def)
  have "\<not> Map_has k (Map_delete k (cache c))"
    by (simp add: Map_has_def Map_get_delete)
  moreover have "length (Map_delete k (cache c)) < length (cache c)"
    using h by (rule length_Map_delete_less)
  moreover have "Map_ok (cache c) \<longrightarrow> Suc (length (Map_delete k (cache c))) = length (cache c)"
    using h by (simp add: length_Map_delete_distinct)
  ultimately show ?thesis by (simp add: g size_c_def Map_delete_filter)
qed

text \<open>
  The scenario of the specification: an entry with a TTL of 100 ms read after 150 ms.
\<close>

theorem C3_get_expired_removes_witness:
  "Map_get ''x'' (cache (set_c 0 0 ''x'' ''v'' (Some 100) (new_SmartCache 10 1000)))
      = Some \<lparr>value = ''v'', expiry = 100, lastAccessed = 0\<rparr>
   \<and> (100::int) \<le> 150
   \<and> Map_ok (cache (set_c 0 0 ''x'' ''v'' (Some 100) (new_SmartCache 10 1000)))
   \<and> fst (get_c 150 ''x'' (set_c 0 0 ''x'' ''v'' (Some 100) (new_SmartCache 10 1000))) = None
   \<and> size_c (set_c 0 0 ''x'' ''v'' (Some 100) (new_SmartCache 10 1000)) = 1
   \<and> size_c (snd (get_c 150 ''x'' (set_c 0 0 ''x'' ''v'' (Some 100) (new_SmartCache 10 1000)))) = 0"
proof -
  let ?c = "set_c 0 0 ''x'' ''v'' (Some 100) (new_SmartCache 10 1000) :: string SmartCache"
  have c: "?c = \<lparr>cache = [(''x'', \<lparr>value = ''v'', expiry = 100, lastAccessed = 0\<rparr>)],
                 maxSize = 10, ttl = 1000\<rparr>"
    by (simp add: set_c_def prune_def new_SmartCache_def Map_has_def)
  have g: "Map_get ''x'' (cache ?c) = Some \<lparr>value = ''v'', expiry = 100, lastAccessed = 0\<rparr>"
    by (simp add: c)
  have ok: "Map_ok (cache ?c)" by (simp add: c Map_ok_def Map_keys_def)
  have sz: "size_c ?c = 1" by (simp add: c size_c_def)
  from C3_get_expired_removes [OF g, of 150] ok sz g show ?thesis by simp
qed

text \<open>
  Claim C4, for capacities of at least one. Let \<open>s\<close> be the Map after the sweep of a
  \<^verbatim>\<open>set(key, value)\<close> call. If \<open>s\<close> holds exactly \<open>maxSize \<ge> 1\<close> entries and \<open>key\<close> is not
  among them, the call removes exactly one entry \<open>(k0, e0)\<close> of \<open>s\<close>, whose \<open>lastAccessed\<close> is
  minimal in \<open>s\<close>, keeps every other entry unchanged and in order, and appends the new
  entry.
\<close>

theorem C4_set_at_capacity_evicts_lru:
  assumes ok: "Map_ok (cache c)"
    and s: "s = cache (snd (prune tprune c))"
    and full: "int (length s) = maxSize c"
    and cap: "1 \<le> maxSize c"
    and new: "\<not> Map_has key s"
  shows "\<exists>k0 e0. (k0, e0) \<in> set s
      \<and> (\<forall>p \<in> set s. lastAccessed e0 \<le> lastAccessed (snd p))
      \<and> cache (set_c tprune now key v customTTL c)
          = filter (\<lambda>p. fst p \<noteq> k0) s
            @ [(key, \<lparr>value = v,
                      expiry = now + (case customTTL of Some t' \<Rightarrow> t' | None \<Rightarrow> ttl c),
                      lastAccessed = now\<rparr>)]
      \<and> Suc (length (filter (\<lambda>p. fst p \<noteq> k0) s)) = length s"
proof -
  let ?c1 = "snd (prune tprune c)"
  let ?e = "\<lparr>value = v, expiry = now + (case customTTL of Some t' \<Rightarrow> t' | None \<Rightarrow> ttl c),
             lastAccessed = now\<rparr>"
  have oks: "Map_ok s" unfolding s using ok by (simp add: prune_cache_distinct Map_ok_filter)
  from full cap have ne: "cache ?c1 \<noteq> []" unfolding s by auto
  from evictLRU_nonempty [OF ne] obtain k0 e0 where
    h: "(k0, e0) \<in> set s" "\<forall>p \<in> set s. lastAccessed e0 \<le> lastAccessed (snd p)"
       "cache (evictLRU ?c1) = Map_delete k0 s"
    unfolding s by blast
  have hk0: "Map_has k0 s" using h(1) by (force simp: Map_has_iff)
  have "\<not> Map_has key (Map_delete k0 s)"
    using new by (simp add: Map_has_def Map_get_delete)
  then have app: "Map_set key ?e (Map_delete k0 s) = Map_delete k0 s @ [(key, ?e)]"
    by (rule Map_set_append)
  have "cache (set_c tprune now key v customTTL c) = Map_set key ?e (cache (evictLRU ?c1))"
    using full new unfolding s by (simp add: set_c_cache)
  then have res: "cache (set_c tprune now key v customTTL c)
      = filter (\<lambda>p. fst p \<noteq> k0) s @ [(key, ?e)]"
    unfolding h(3) app by (simp only: Map_delete_filter)
  have len: "Suc (length (filter (\<lambda>p. fst p \<noteq> k0) s)) = length s"
    using length_Map_delete_distinct [OF oks hk0] by (simp add: Map_delete_filter)
  from h(1,2) res len show ?thesis by blast
qed

text \<open>
  The scenario of the specification: capacity 2 holding \<open>a\<close> and \<open>b\<close>; inserting \<open>c\<close> evicts
  \<open>a\<close>, the least recently accessed.
\<close>

theorem C4_set_at_capacity_evicts_lru_witness:
  "Map_ok (cache \<lparr>cache = [(''a'', \<lparr>value = 1::int, expiry = 1000, lastAccessed = 0\<rparr>),
                              (''b'', \<lparr>value = 2, expiry = 1001, lastAccessed = 1\<rparr>)],
                    maxSize = 2, ttl = 1000\<rparr>)
   \<and> int (length [(''a'', \<lparr>value = 1::int, expiry = 1000, lastAccessed = 0\<rparr>),
                   (''b'', \<lparr>value = 2, expiry = 1001, lastAccessed = 1\<rparr>)]) = 2
   \<and> \<not> Map_has ''c'' [(''a'', \<lparr>value = 1::int, expiry = 1000, lastAccessed = 0\<rparr>),
                        (''b'', \<lparr>value = 2, expiry = 1001, lastAccessed = 1\<rparr>)]
   \<and> cache (set_c 2 2 ''c'' 3 None
        \<lparr>cache = [(''a'', \<lparr>value = 1::int, expiry = 1000, lastAccessed = 0\<rparr>),
                  (''b'', \<lparr>value = 2, expiry = 1001, lastAccessed = 1\<rparr>)],
         maxSize = 2, ttl = 1000\<rparr>)
     = [(''b'', \<lparr>value = 2, expiry = 1001, lastAccessed = 1\<rparr>),
        (''c'', \<lparr>value = 3, expiry = 1002, lastAccessed = 2\<rparr>)]"
proof -
  let ?s = "[(''a'', \<lparr>value = 1::int, expiry = 1000, lastAccessed = 0\<rparr>),
             (''b'', \<lparr>value = 2, expiry = 1001, lastAccessed = 1\<rparr>)]"
  let ?c = "\<lparr>cache = ?s, maxSize = 2, ttl = 1000\<rparr>"
  have ok: "Map_ok (cache ?c)" by (simp add: Map_ok_def Map_keys_def)
  have s: "?s = cache (snd (prune 2 ?c))" by (simp add: prune_def)
  have full: "int (length ?s) = maxSize ?c" by simp
  have cap: "1 \<le> maxSize ?c" by simp
  have new: "\<not> Map_has ''c'' ?s" by (simp add: Map_has_def)
  from C4_set_at_capacity_evicts_lru [OF ok s full cap new, of 2 3 None]
  obtain k0 e0 where
    h: "(k0, e0) \<in> set ?s" "\<forall>p \<in> set ?s. lastAccessed e0 \<le> lastAccessed (snd p)"
       "cache (set_c 2 2 ''c'' 3 None ?c) = filter (\<lambda>p. fst p \<noteq> k0) ?s
          @ [(''c'', \<lparr>value = 3, expiry = 2 + (case None of Some t' \<Rightarrow> t' | None \<Rightarrow> ttl ?c),
                      lastAccessed = 2\<rparr>)]"
    by blast
  from h(1,2) have "k0 = ''a''" by auto
  with h(3) ok new show ?thesis by simp
qed

text \<open>
  Claim C4 as stated includes capacity zero: the swept Map is empty, so it holds exactly
  \<open>maxSize = 0\<close> entries and the key is absent, yet \<^verbatim>\<open>evictLRU\<close> removes nothing and the
  entry count grows by one.
\<close>

theorem C4_capacity_zero_counterexample:
  "int (size_c (snd (prune 0 (new_SmartCache 0 1000 :: int SmartCache))))
      = maxSize (new_SmartCache 0 1000 :: int SmartCache)
   \<and> \<not> Map_has ''a'' (cache (snd (prune 0 (new_SmartCache 0 1000 :: int SmartCache))))
   \<and> size_c (evictLRU (snd (prune 0 (new_SmartCache 0 1000 :: int SmartCache))))
      = size_c (snd (prune 0 (new_SmartCache 0 1000 :: int SmartCache)))
   \<and> size_c (set_c 0 0 ''a'' (1::int) None (new_SmartCache 0 1000))
      = size_c (snd (prune 0 (new_SmartCache 0 1000 :: int SmartCache))) + 1"
  by (simp add: size_c_def set_c_def prune_def new_SmartCache_def evictLRU_def Map_has_def)

text \<open>
  Claim C7, evaluated with the pattern \<^verbatim>\<open>/a/g\<close> on a cache holding the keys \<open>ab\<close>, \<open>a\<close>
  and \<open>ba\<close>. Each key matches the pattern (a fresh \<^verbatim>\<open>test\<close> of each is true), but the
  loop calls \<^verbatim>\<open>test\<close> on one pattern object: after the match in \<open>ab\<close> its
  \<^verbatim>\<open>lastIndex\<close> is 1, so the search in \<open>a\<close> starts behind the only \<open>a\<close> and fails. The
  call returns 2 and the matching entry \<open>a\<close> stays in the cache.
\<close>

theorem C7_global_pattern_keeps_matching_key:
  "(let pat = \<lparr>matcher = rx_match_at [Lit CHR ''a''], global = True, sticky = False,
               lastIndex = 0\<rparr>;
        c = \<lparr>cache = [(''ab'', \<lparr>value = 1::int, expiry = 1000, lastAccessed = 0\<rparr>),
                      (''a'', \<lparr>value = 2, expiry = 1000, lastAccessed = 0\<rparr>),
                      (''ba'', \<lparr>value = 3, expiry = 1000, lastAccessed = 0\<rparr>)],
             maxSize = 10, ttl = 1000\<rparr>
    in RegExp_fragment ''a'' = Inr (pat\<lparr>global := False\<rparr>)
       \<and> fst (RegExp_test pat ''ab'') \<and> fst (RegExp_test pat ''a'') \<and> fst (RegExp_test pat ''ba'')
       \<and> invalidatePattern pat c
           = (2, c\<lparr>cache := [(''a'', \<lparr>value = 2, expiry = 1000, lastAccessed = 0\<rparr>)]\<rparr>,
              pat\<lparr>lastIndex := 2\<rparr>))"
  by (simp add: Let_def RegExp_fragment_def backslash_def syntax_character_def RegExp_test_def
      exec_search.simps invalidatePattern_def Map_keys_def)


text \<open>
  Claim C8, with the clock value of the sweep. \<^verbatim>\<open>set\<close> reads the clock twice: first in
  \<^verbatim>\<open>prune()\<close> (\<open>tprune\<close>), then for the new entry (\<open>now\<close>). On a Map (distinct keys) the
  sweep leaves exactly the entries with \<open>tprune < expiry\<close>, and \<^verbatim>\<open>set\<close> is the capacity
  check, the eviction and the insertion run on that swept store: the capacity test reads
  the length of the swept Map and \<^verbatim>\<open>evictLRU\<close> scans the swept Map. Hence, after
  \<^verbatim>\<open>set\<close> returns, every entry other than the one stored under \<open>key\<close> is an entry of the
  old store with \<open>tprune < expiry\<close>; when the second clock value is not later than the first,
  it also has \<open>now < expiry\<close>.
\<close>

theorem C8_set_sweeps_first:
  assumes "Map_ok (cache c)"
  shows "cache (snd (prune tprune c)) = filter (\<lambda>p. tprune < expiry (snd p)) (cache c)
   \<and> set_c tprune now key v customTTL c
       = (let swept = c\<lparr>cache := filter (\<lambda>p. tprune < expiry (snd p)) (cache c)\<rparr>;
              room = (if maxSize c \<le> int (length (cache swept)) \<and> \<not> Map_has key (cache swept)
                      then evictLRU swept else swept)
          in room\<lparr>cache :=
               Map_set key
                 \<lparr>value = v,
                  expiry = now + (case customTTL of Some t' \<Rightarrow> t' | None \<Rightarrow> ttl c),
                  lastAccessed = now\<rparr>
                 (cache room)\<rparr>)
   \<and> (\<forall>p \<in> set (cache (set_c tprune now key v customTTL c)).
         fst p \<noteq> key \<longrightarrow> p \<in> set (cache c) \<and> tprune < expiry (snd p))
   \<and> (now \<le> tprune \<longrightarrow>
        (\<forall>p \<in> set (cache (set_c tprune now key v customTTL c)).
           fst p \<noteq> key \<longrightarrow> now < expiry (snd p)))"
proof -
  let ?swept = "c\<lparr>cache := filter (\<lambda>p. tprune < expiry (snd p)) (cache c)\<rparr>"
  have sw: "snd (prune tprune c) = ?swept" using assms by (rule prune_distinct)
  have a: "cache (snd (prune tprune c)) = filter (\<lambda>p. tprune < expiry (snd p)) (cache c)"
    by (simp add: sw)
  have b: "set_c tprune now key v customTTL c
       = (let swept = ?swept;
              room = (if maxSize c \<le> int (length (cache swept)) \<and> \<not> Map_has key (cache swept)
                      then evictLRU swept else swept)
          in room\<lparr>cache :=
               Map_set key
                 \<lparr>value = v,
                  expiry = now + (case customTTL of Some t' \<Rightarrow> t' | None \<Rightarrow> ttl c),
                  lastAccessed = now\<rparr>
                 (cache room)\<rparr>)"
    by (cases customTTL) (simp_all add: set_c_def sw Let_def)
  have c: "p \<in> set (cache c) \<and> tprune < expiry (snd p)"
    if p: "p \<in> set (cache (set_c tprune now key v customTTL c))" and ne: "fst p \<noteq> key" for p
  proof -
    let ?c1 = "snd (prune tprune c)"
    let ?c2 = "if maxSize c \<le> int (length (cache ?c1)) \<and> \<not> Map_has key (cache ?c1)
               then evictLRU ?c1 else ?c1"
    from p obtain e where "p \<in> set (Map_set key e (cache ?c2))"
      unfolding set_c_cache by blast
    with ne have "p \<in> set (cache ?c2)" using Map_set_subset [of key e "cache ?c2"] by auto
    then have "p \<in> set (cache ?c1)" using evictLRU_subset [of ?c1] by (auto split: if_splits)
    then show ?thesis unfolding a by simp
  qed
  have d: "now < expiry (snd p)"
    if "now \<le> tprune" and "p \<in> set (cache (set_c tprune now key v customTTL c))"
      and "fst p \<noteq> key" for p
    using c [OF that(2,3)] that(1) by simp
  show ?thesis using a b c d by blast
qed

text \<open>
  Capacity 2, holding the live \<open>a\<close> and the expired \<open>b\<close>. The sweep drops \<open>b\<close> before the
  capacity check, so inserting \<open>c\<close> evicts nothing and \<open>a\<close> stays; a capacity check on the
  unswept store would have found it full and evicted \<open>a\<close>.
\<close>

theorem C8_set_sweeps_first_witness:
  "Map_ok (cache \<lparr>cache = [(''a'', \<lparr>value = 1::int, expiry = 1000, lastAccessed = 0\<rparr>),
                          (''b'', \<lparr>value = 2, expiry = 5, lastAccessed = 1\<rparr>)],
                maxSize = 2, ttl = 1000\<rparr>)
   \<and> cache (snd (prune 10
        \<lparr>cache = [(''a'', \<lparr>value = 1::int, expiry = 1000, lastAccessed = 0\<rparr>),
                  (''b'', \<lparr>value = 2, expiry = 5, lastAccessed = 1\<rparr>)],
         maxSize = 2, ttl = 1000\<rparr>))
      = [(''a'', \<lparr>value = 1, expiry = 1000, lastAccessed = 0\<rparr>)]
   \<and> set_c 10 10 ''c'' 3 None
        \<lparr>cache = [(''a'', \<lparr>value = 1::int, expiry = 1000, lastAccessed = 0\<rparr>),
                  (''b'', \<lparr>value = 2, expiry = 5, lastAccessed = 1\<rparr>)],
         maxSize = 2, ttl = 1000\<rparr>
      = \<lparr>cache = [(''a'', \<lparr>value = 1, expiry = 1000, lastAccessed = 0\<rparr>),
                  (''c'', \<lparr>value = 3, expiry = 1010, lastAccessed = 10\<rparr>)],
         maxSize = 2, ttl = 1000\<rparr>
   \<and> (10::int) \<le> 10
   \<and> (10::int) < expiry \<lparr>value = 1::int, expiry = 1000, lastAccessed = 0\<rparr>"
proof -
  let ?c = "\<lparr>cache = [(''a'', \<lparr>value = 1::int, expiry = 1000, lastAccessed = 0\<rparr>),
                      (''b'', \<lparr>value = 2, expiry = 5, lastAccessed = 1\<rparr>)],
             maxSize = 2, ttl = 1000\<rparr>"
  have ok: "Map_ok (cache ?c)" by (simp add: Map_ok_def Map_keys_def)
  note th = C8_set_sweeps_first [OF ok, of 10 10 "''c''" 3 None]
  from th [THEN conjunct1]
  have a: "cache (snd (prune 10 ?c)) = [(''a'', \<lparr>value = 1, expiry = 1000, lastAccessed = 0\<rparr>)]"
    by simp
  from th [THEN conjunct2, THEN conjunct1]
  have b: "set_c 10 10 ''c'' 3 None ?c
      = \<lparr>cache = [(''a'', \<lparr>value = 1, expiry = 1000, lastAccessed = 0\<rparr>),
                  (''c'', \<lparr>value = 3, expiry = 1010, lastAccessed = 10\<rparr>)],
         maxSize = 2, ttl = 1000\<rparr>"
    by (simp add: Let_def Map_has_def)
  from ok a b show ?thesis by simp
qed

text \<open>
  Claim C8 as stated speaks of one \<open>now\<close>. When the clock advances between the two readings
  (4 in the sweep, 6 for the insertion), an entry that expires at 5 survives the sweep, and
  after \<^verbatim>\<open>set\<close> returns it is an entry other than the inserted one with
  \<open>expiry \<le> now\<close>.
\<close>

theorem C8_clock_advance_counterexample:
  "(''x'', \<lparr>value = 1::int, expiry = 5, lastAccessed = 0\<rparr>)
      \<in> set (cache (set_c 4 6 ''k'' 2 None
          \<lparr>cache = [(''x'', \<lparr>value = 1::int, expiry = 5, lastAccessed = 0\<rparr>)],
           maxSize = 10, ttl = 1000\<rparr>))
   \<and> ''x'' \<noteq> ''k''
   \<and> expiry \<lparr>value = 1::int, expiry = 5, lastAccessed = 0\<rparr> \<le> 6"
  by (simp add: set_c_def prune_def Map_has_def)

text \<open>
  Claim C9. A \<^verbatim>\<open>set(k, v, t)\<close> with \<open>t \<le> 0\<close> stores an entry whose expiry \<open>now + t\<close> is not
  after the insertion time \<open>now\<close>.
  \<^item> It is in the Map and counted by \<^verbatim>\<open>size()\<close>.
  \<^item> Every \<^verbatim>\<open>get(k)\<close> and \<^verbatim>\<open>has(k)\<close> at a time \<open>t' \<ge> now\<close> reports it absent, directly
    after the insertion (removing it, so that the size drops) and after any further calls
    that do not set \<open>k\<close> again.
  \<^item> It presses on the capacity: when the swept store, whose entries are all live at the
    sweep, is non-empty and passes the capacity test \<open>size \<ge> maxSize\<close>, and \<open>k\<close> is new,
    the insertion evicts one of those live entries, of minimal \<open>lastAccessed\<close>, to make
    room for the dead one, and the store is as large as before.
  \<^item> It stays in the Map until it is swept or accessed: the Map that the capacity check of
    a later \<^verbatim>\<open>set\<close> reads, after its sweep at clock value \<open>t2\<close>, holds \<open>k\<close> exactly when
    \<open>t2 < now + t\<close>; a sweep at or after the insertion time removes it.
\<close>

theorem C9_nonpositive_ttl:
  assumes "t \<le> 0" and "c' = set_c tprune now k v (Some t) c"
  shows "Map_get k (cache c') = Some \<lparr>value = v, expiry = now + t, lastAccessed = now\<rparr>
     \<and> now + t \<le> now
     \<and> 1 \<le> size_c c'
     \<and> (\<forall>t'. now \<le> t' \<longrightarrow>
           fst (get_c t' k c') = None \<and> \<not> fst (has_c t' k c')
           \<and> size_c (snd (get_c t' k c')) < size_c c'
           \<and> size_c (snd (has_c t' k c')) < size_c c')
     \<and> (\<forall>calls t'. now \<le> t' \<and> list_all (\<lambda>x. \<not> sets_key k x) calls \<longrightarrow>
           fst (get_c t' k (run calls c')) = None \<and> \<not> fst (has_c t' k (run calls c')))
     \<and> (Map_ok (cache c) \<and> maxSize c \<le> int (length (cache (snd (prune tprune c))))
          \<and> cache (snd (prune tprune c)) \<noteq> []
          \<and> \<not> Map_has k (cache (snd (prune tprune c))) \<longrightarrow>
          (\<exists>k0 e0. (k0, e0) \<in> set (cache (snd (prune tprune c)))
             \<and> (k0, e0) \<in> set (cache c) \<and> tprune < expiry e0
             \<and> (\<forall>p \<in> set (cache (snd (prune tprune c))).
                   lastAccessed e0 \<le> lastAccessed (snd p))
             \<and> cache c' = filter (\<lambda>p. fst p \<noteq> k0) (cache (snd (prune tprune c)))
                            @ [(k, \<lparr>value = v, expiry = now + t, lastAccessed = now\<rparr>)]
             \<and> \<not> Map_has k0 (cache c')
             \<and> size_c c' = length (cache (snd (prune tprune c)))))
     \<and> (Map_ok (cache c) \<longrightarrow>
          (\<forall>t2. Map_has k (cache (snd (prune t2 c'))) = (t2 < now + t)))"
proof -
  let ?e = "\<lparr>value = v, expiry = now + t, lastAccessed = now\<rparr>"
  have g: "Map_get k (cache c') = Some ?e"
    unfolding assms(2) set_c_cache by (simp add: Map_get_set)
  have x: "now + t \<le> now" using assms(1) by simp
  have has: "Map_has k (cache c')" using g by (simp add: Map_has_def)
  then have "cache c' \<noteq> []" by (auto simp: Map_has_def)
  then have sz: "1 \<le> size_c c'" by (simp add: size_c_def Suc_le_eq)
  have acc: "fst (get_c t' k c') = None \<and> \<not> fst (has_c t' k c')
           \<and> size_c (snd (get_c t' k c')) < size_c c'
           \<and> size_c (snd (has_c t' k c')) < size_c c'" if "now \<le> t'" for t'
    using g x that length_Map_delete_less [OF has]
    by (simp add: get_c_def has_c_def size_c_def)
  have later: "fst (get_c t' k (run calls c')) = None \<and> \<not> fst (has_c t' k (run calls c'))"
    if le: "now \<le> t'" and ns: "list_all (\<lambda>x. \<not> sets_key k x) calls" for calls t'
  proof -
    have "\<forall>e. Map_get k (cache (run calls c')) = Some e \<longrightarrow> expiry e \<le> t'"
    proof (intro allI impI)
      fix e assume "Map_get k (cache (run calls c')) = Some e"
      from Map_get_run [OF this ns] g have "expiry e = now + t" by auto
      with x le show "expiry e \<le> t'" by simp
    qed
    then show ?thesis using get_c_expired_None has_c_expired_False by blast
  qed
  have evict: "\<exists>k0 e0. (k0, e0) \<in> set (cache (snd (prune tprune c)))
             \<and> (k0, e0) \<in> set (cache c) \<and> tprune < expiry e0
             \<and> (\<forall>p \<in> set (cache (snd (prune tprune c))).
                   lastAccessed e0 \<le> lastAccessed (snd p))
             \<and> cache c' = filter (\<lambda>p. fst p \<noteq> k0) (cache (snd (prune tprune c)))
                            @ [(k, ?e)]
             \<and> \<not> Map_has k0 (cache c')
             \<and> size_c c' = length (cache (snd (prune tprune c)))"
    if ok: "Map_ok (cache c)"
      and full: "maxSize c \<le> int (length (cache (snd (prune tprune c))))"
      and nonempty: "cache (snd (prune tprune c)) \<noteq> []"
      and new: "\<not> Map_has k (cache (snd (prune tprune c)))"
  proof -
    let ?s = "cache (snd (prune tprune c))"
    from set_c_evicts_one [OF ok refl full nonempty new, of now v "Some t"] obtain k0 e0 where
      h: "(k0, e0) \<in> set ?s" "\<forall>p \<in> set ?s. lastAccessed e0 \<le> lastAccessed (snd p)"
         "cache c' = filter (\<lambda>p. fst p \<noteq> k0) ?s @ [(k, ?e)]"
         "Suc (length (filter (\<lambda>p. fst p \<noteq> k0) ?s)) = length ?s"
      unfolding assms(2) by auto
    from h(1) have live: "(k0, e0) \<in> set (cache c) \<and> tprune < expiry e0"
      using prune_cache_set [of tprune c] by auto
    from h(1) new have ne: "k0 \<noteq> k" by (force simp: Map_has_iff)
    have gone: "\<not> Map_has k0 (cache c')"
      unfolding h(3) Map_has_iff using ne by auto
    have "size_c c' = length ?s" unfolding size_c_def h(3) using h(4) by simp
    with h(1,2,3) live gone show ?thesis by blast
  qed
  have swept: "Map_has k (cache (snd (prune t2 c'))) = (t2 < now + t)"
    if ok: "Map_ok (cache c)" for t2
  proof -
    have ok': "Map_ok (cache c')" unfolding assms(2) using ok by (rule Map_ok_set_c)
    have in': "(k, ?e) \<in> set (cache c')" using g by (rule Map_get_in_set)
    show ?thesis
    proof
      assume "Map_has k (cache (snd (prune t2 c')))"
      then obtain e where e: "(k, e) \<in> set (cache c')" "t2 < expiry e"
        unfolding prune_cache_distinct [OF ok'] Map_has_iff by auto
      from Map_get_distinct [OF ok' e(1)] g have "e = ?e" by simp
      with e(2) show "t2 < now + t" by simp
    next
      assume "t2 < now + t"
      with in' have "(k, ?e) \<in> set (filter (\<lambda>p. t2 < expiry (snd p)) (cache c'))" by simp
      then show "Map_has k (cache (snd (prune t2 c')))"
        unfolding prune_cache_distinct [OF ok'] Map_has_iff by force
    qed
  qed
  show ?thesis using g x sz acc later evict swept by blast
qed

text \<open>
  Capacity 2, holding the live \<open>a\<close> and \<open>b\<close>; a \<^verbatim>\<open>set\<close> of \<open>k\<close> with TTL \<open>-3\<close> at time 5
  evicts \<open>a\<close>. The dead entry is counted, reported absent at times 5, 7 and 9, and gone
  after a sweep at time 6.
\<close>

theorem C9_nonpositive_ttl_witness:
  "(-3::int) \<le> 0
   \<and> Map_ok [(''a'', \<lparr>value = 1::int, expiry = 1000, lastAccessed = 0\<rparr>),
              (''b'', \<lparr>value = 2, expiry = 1001, lastAccessed = 1\<rparr>)]
   \<and> \<not> Map_has ''k'' [(''a'', \<lparr>value = 1::int, expiry = 1000, lastAccessed = 0\<rparr>),
                        (''b'', \<lparr>value = 2, expiry = 1001, lastAccessed = 1\<rparr>)]
   \<and> (2::int) \<le> int (length [(''a'', \<lparr>value = 1::int, expiry = 1000, lastAccessed = 0\<rparr>),
                             (''b'', \<lparr>value = 2, expiry = 1001, lastAccessed = 1\<rparr>)])
   \<and> cache (set_c 5 5 ''k'' 3 (Some (-3))
        \<lparr>cache = [(''a'', \<lparr>value = 1::int, expiry = 1000, lastAccessed = 0\<rparr>),
                  (''b'', \<lparr>value = 2, expiry = 1001, lastAccessed = 1\<rparr>)],
         maxSize = 2, ttl = 1000\<rparr>)
      = [(''b'', \<lparr>value = 2, expiry = 1001, lastAccessed = 1\<rparr>),
         (''k'', \<lparr>value = 3, expiry = 2, lastAccessed = 5\<rparr>)]
   \<and> size_c (set_c 5 5 ''k'' 3 (Some (-3))
        \<lparr>cache = [(''a'', \<lparr>value = 1::int, expiry = 1000, lastAccessed = 0\<rparr>),
                  (''b'', \<lparr>value = 2, expiry = 1001, lastAccessed = 1\<rparr>)],
         maxSize = 2, ttl = 1000\<rparr>) = 2
   \<and> fst (get_c 5 ''k'' (set_c 5 5 ''k'' 3 (Some (-3))
        \<lparr>cache = [(''a'', \<lparr>value = 1::int, expiry = 1000, lastAccessed = 0\<rparr>),
                  (''b'', \<lparr>value = 2, expiry = 1001, lastAccessed = 1\<rparr>)],
         maxSize = 2, ttl = 1000\<rparr>)) = None
   \<and> \<not> fst (has_c 9 ''k'' (set_c 5 5 ''k'' 3 (Some (-3))
        \<lparr>cache = [(''a'', \<lparr>value = 1::int, expiry = 1000, lastAccessed = 0\<rparr>),
                  (''b'', \<lparr>value = 2, expiry = 1001, lastAccessed = 1\<rparr>)],
         maxSize = 2, ttl = 1000\<rparr>))
   \<and> list_all (\<lambda>x. \<not> sets_key ''k'' x) [Get ''z'' 6, Size :: int call]
   \<and> fst (get_c 7 ''k'' (run [Get ''z'' 6, Size] (set_c 5 5 ''k'' 3 (Some (-3))
        \<lparr>cache = [(''a'', \<lparr>value = 1::int, expiry = 1000, lastAccessed = 0\<rparr>),
                  (''b'', \<lparr>value = 2, expiry = 1001, lastAccessed = 1\<rparr>)],
         maxSize = 2, ttl = 1000\<rparr>))) = None
   \<and> \<not> Map_has ''k'' (cache (snd (prune 6 (set_c 5 5 ''k'' 3 (Some (-3))
        \<lparr>cache = [(''a'', \<lparr>value = 1::int, expiry = 1000, lastAccessed = 0\<rparr>),
                  (''b'', \<lparr>value = 2, expiry = 1001, lastAccessed = 1\<rparr>)],
         maxSize = 2, ttl = 1000\<rparr>))))"
proof -
  let ?s = "[(''a'', \<lparr>value = 1::int, expiry = 1000, lastAccessed = 0\<rparr>),
             (''b'', \<lparr>value = 2, expiry = 1001, lastAccessed = 1\<rparr>)]"
  let ?c = "\<lparr>cache = ?s, maxSize = 2, ttl = 1000\<rparr>"
  let ?c' = "set_c 5 5 ''k'' 3 (Some (-3)) ?c"
  let ?dead = "\<lparr>value = 3::int, expiry = 2, lastAccessed = 5\<rparr>"
  have t: "(-3::int) \<le> 0" by simp
  have ok: "Map_ok (cache ?c)" by (simp add: Map_ok_def Map_keys_def)
  have pr: "cache (snd (prune 5 ?c)) = ?s" by (simp add: prune_def)
  have full: "maxSize ?c \<le> int (length (cache (snd (prune 5 ?c))))" by (simp add: pr)
  have nonempty: "cache (snd (prune 5 ?c)) \<noteq> []" by (simp add: pr)
  have new: "\<not> Map_has ''k'' (cache (snd (prune 5 ?c)))" by (simp add: pr Map_has_def)
  have ns: "list_all (\<lambda>x. \<not> sets_key ''k'' x) [Get ''z'' 6, Size :: int call]" by simp
  note th = C9_nonpositive_ttl [OF t refl, where tprune = 5 and now = 5 and k = "''k''"
      and v = 3 and c = ?c]
  note c3 = th [THEN conjunct2, THEN conjunct2, THEN conjunct1]
  note c4 = th [THEN conjunct2, THEN conjunct2, THEN conjunct2, THEN conjunct1, rule_format]
  note c5 = th [THEN conjunct2, THEN conjunct2, THEN conjunct2, THEN conjunct2,
      THEN conjunct1, rule_format, of 7 "[Get ''z'' 6, Size]", THEN conjunct1]
  note c6 = th [THEN conjunct2, THEN conjunct2, THEN conjunct2, THEN conjunct2,
      THEN conjunct2, THEN conjunct1, rule_format]
  note c7 = th [THEN conjunct2, THEN conjunct2, THEN conjunct2, THEN conjunct2,
      THEN conjunct2, THEN conjunct2, rule_format, OF ok, of 6]
  have a: "fst (get_c 5 ''k'' ?c') = None" using c4 [of 5] by simp
  have b: "\<not> fst (has_c 9 ''k'' ?c')" using c4 [of 9] by simp
  have r: "fst (get_c 7 ''k'' (run [Get ''z'' 6, Size] ?c')) = None"
    by (rule c5) simp
  have p: "\<not> Map_has ''k'' (cache (snd (prune 6 ?c')))" using c7 by simp
  from c6 ok full nonempty new obtain k0 e0 where
    h: "(k0, e0) \<in> set (cache (snd (prune 5 ?c)))"
       "\<forall>p \<in> set (cache (snd (prune 5 ?c))). lastAccessed e0 \<le> lastAccessed (snd p)"
       "cache ?c' = filter (\<lambda>p. fst p \<noteq> k0) (cache (snd (prune 5 ?c))) @ [(''k'', ?dead)]"
       "size_c ?c' = length (cache (snd (prune 5 ?c)))"
    by auto
  from h(1,2) have "k0 = ''a''" unfolding pr by auto
  with h(3) have res: "cache ?c'
      = [(''b'', \<lparr>value = 2, expiry = 1001, lastAccessed = 1\<rparr>), (''k'', ?dead)]"
    unfolding pr by simp
  from h(4) have sz: "size_c ?c' = 2" by (simp add: pr)
  have oks: "Map_ok ?s" using ok by simp
  have news: "\<not> Map_has ''k'' ?s" using new unfolding pr .
  have fulls: "(2::int) \<le> int (length ?s)" by simp
  from t oks news fulls res sz a b ns r p show ?thesis by blast
qed

text \<open>
  Claim C10, evaluated with the pattern \<^verbatim>\<open>/a/g\<close> on a cache holding \<open>a1\<close> and \<open>a2\<close>, both
  expired at time 10 (\<^verbatim>\<open>get\<close> and \<^verbatim>\<open>has\<close> report \<open>a2\<close> absent there) and both matching
  the pattern. After the match in \<open>a1\<close> the \<^verbatim>\<open>lastIndex\<close> of the pattern object is 1 and
  the search in \<open>a2\<close> fails: the call returns 1, and \<open>a2\<close> is neither removed nor counted.
\<close>

theorem C10_global_pattern_keeps_expired_match:
  "(let pat = \<lparr>matcher = rx_match_at [Lit CHR ''a''], global = True, sticky = False,
               lastIndex = 0\<rparr>;
        c = \<lparr>cache = [(''a1'', \<lparr>value = 1::int, expiry = 5, lastAccessed = 0\<rparr>),
                      (''a2'', \<lparr>value = 2, expiry = 5, lastAccessed = 0\<rparr>)],
             maxSize = 10, ttl = 1000\<rparr>
    in fst (get_c 10 ''a2'' c) = None \<and> \<not> fst (has_c 10 ''a2'' c)
       \<and> fst (RegExp_test pat ''a1'') \<and> fst (RegExp_test pat ''a2'')
       \<and> invalidatePattern pat c
           = (1, c\<lparr>cache := [(''a2'', \<lparr>value = 2, expiry = 5, lastAccessed = 0\<rparr>)]\<rparr>, pat))"
  by (simp add: Let_def RegExp_test_def exec_search.simps invalidatePattern_def Map_keys_def
      get_c_def has_c_def)

section \<open>The claims about the cached file methods\<close>

text \<open>
  Claim C2, evaluated on a project directory whose name has parentheses.
  \<^verbatim>\<open>_writeFile\<close> builds its pattern by pasting the path between \<^verbatim>\<open>^\<close> and \<^verbatim>\<open>$\<close>
  without escaping it, so the parentheses of the path form a group and the pattern does not
  match the path itself. The file is read (and cached), then written with new content; the
  write succeeds, the invalidation removes nothing, and the next read returns the old
  cached text, not the text just written.
\<close>

theorem C2_stale_read_after_write:
  "(let K = ''/home/dev/app (copy)/.context/CURRENT_STATE.md'';
        d0 = \<lparr>files = [K \<mapsto> ''A''], read_only = (\<lambda>p. False), io_log = []\<rparr>;
        (r1, d1, c1) = cm_readFile 0 0 0 d0 fileCache K;
        (r2, d2, c2) = cm_writeFile RegExp_fragment d1 c1 K ''B'';
        (r3, d3, c3) = cm_readFile 1 1 1 d2 c2 K
    in r1 = Inr ''A'' \<and> r2 = Inr () \<and> files d2 K = Some ''B'' \<and> c2 = c1 \<and> r3 = Inr ''A'')"
  by (simp add: RegExp_fragment_def backslash_def syntax_character_def identity_escape_def
      line_terminator_def RegExp_test_def exec_search.simps Let_def cm_readFile_def cm_writeFile_def fileCache_def
      new_SmartCache_def get_c_def set_c_def prune_def Map_has_def readFile_def writeFile_def
      invalidatePattern_def Map_keys_def)

text \<open>
  Claim C5. When the underlying \<^verbatim>\<open>writeFile\<close> (or \<^verbatim>\<open>appendFile\<close>) fails with an
  error, \<^verbatim>\<open>_writeFile\<close> (or \<^verbatim>\<open>_appendFile\<close>) fails with that same error and the cache
  is the one it was called with: no pattern is built and nothing is invalidated.
\<close>

theorem C5_write_failure_keeps_cache:
  "(fst (writeFile d k content) = Inl e \<longrightarrow>
      cm_writeFile RegExp_new d c k content = (Inl e, snd (writeFile d k content), c))
   \<and> (fst (appendFile d k content) = Inl e \<longrightarrow>
      cm_appendFile RegExp_new d c k content = (Inl e, snd (appendFile d k content), c))"
  by (auto simp: cm_writeFile_def cm_appendFile_def split: prod.splits sum.splits)

text \<open>
  A write and an append on a read-only disk, with the key cached.
\<close>

theorem C5_write_failure_keeps_cache_witness:
  "fst (writeFile \<lparr>files = Map.empty, read_only = (\<lambda>p. True), io_log = []\<rparr> ''f.md'' ''B'')
      = Inl (CouldNotWriteFile ''f.md'')
   \<and> fst (cm_writeFile RegExp_fragment
        \<lparr>files = Map.empty, read_only = (\<lambda>p. True), io_log = []\<rparr>
        \<lparr>cache = [(''f.md'', \<lparr>value = ''A'', expiry = 600000, lastAccessed = 0\<rparr>)],
         maxSize = 50, ttl = 600000\<rparr> ''f.md'' ''B'') = Inl (CouldNotWriteFile ''f.md'')
   \<and> snd (snd (cm_writeFile RegExp_fragment
        \<lparr>files = Map.empty, read_only = (\<lambda>p. True), io_log = []\<rparr>
        \<lparr>cache = [(''f.md'', \<lparr>value = ''A'', expiry = 600000, lastAccessed = 0\<rparr>)],
         maxSize = 50, ttl = 600000\<rparr> ''f.md'' ''B''))
      = \<lparr>cache = [(''f.md'', \<lparr>value = ''A'', expiry = 600000, lastAccessed = 0\<rparr>)],
         maxSize = 50, ttl = 600000\<rparr>
   \<and> fst (appendFile \<lparr>files = Map.empty, read_only = (\<lambda>p. True), io_log = []\<rparr> ''f.md'' ''B'')
      = Inl (CouldNotAppendFile ''f.md'')
   \<and> snd (snd (cm_appendFile RegExp_fragment
        \<lparr>files = Map.empty, read_only = (\<lambda>p. True), io_log = []\<rparr>
        \<lparr>cache = [(''f.md'', \<lparr>value = ''A'', expiry = 600000, lastAccessed = 0\<rparr>)],
         maxSize = 50, ttl = 600000\<rparr> ''f.md'' ''B''))
      = \<lparr>cache = [(''f.md'', \<lparr>value = ''A'', expiry = 600000, lastAccessed = 0\<rparr>)],
         maxSize = 50, ttl = 600000\<rparr>"
proof -
  let ?d = "\<lparr>files = Map.empty, read_only = (\<lambda>p. True), io_log = []\<rparr>"
  let ?c = "\<lparr>cache = [(''f.md'', \<lparr>value = ''A'', expiry = 600000, lastAccessed = 0\<rparr>)],
             maxSize = 50, ttl = 600000\<rparr>"
  have w: "fst (writeFile ?d ''f.md'' ''B'') = Inl (CouldNotWriteFile ''f.md'')"
    by (simp add: writeFile_def)
  have a: "fst (appendFile ?d ''f.md'' ''B'') = Inl (CouldNotAppendFile ''f.md'')"
    by (simp add: appendFile_def)
  note th = C5_write_failure_keeps_cache [of ?d "''f.md''" "''B''" _ RegExp_fragment ?c]
  from th [of "CouldNotWriteFile ''f.md''", THEN conjunct1, rule_format, OF w]
  have 1: "cm_writeFile RegExp_fragment ?d ?c ''f.md'' ''B''
      = (Inl (CouldNotWriteFile ''f.md''), snd (writeFile ?d ''f.md'' ''B''), ?c)" .
  from th [of "CouldNotAppendFile ''f.md''", THEN conjunct2, rule_format, OF a]
  have 2: "cm_appendFile RegExp_fragment ?d ?c ''f.md'' ''B''
      = (Inl (CouldNotAppendFile ''f.md''), snd (appendFile ?d ''f.md'' ''B''), ?c)" .
  show ?thesis unfolding 1 2 using w a by simp
qed

text \<open>
  Claim C6. \<^verbatim>\<open>_readFile(k)\<close>: on a present entry that is not expired it returns the
  cached value and the disk, with its call log, is unchanged; when \<^verbatim>\<open>get\<close> reports the key
  absent it reads the file once, and either stores the text under \<open>k\<close> with the default TTL
  and returns it, or, when the read fails, fails with the same error and inserts nothing
  (the key is absent afterwards and no entry is new).
\<close>

theorem C6_read_through_cache:
  "(\<forall>e. Map_get k (cache c) = Some e \<and> tget < expiry e \<longrightarrow>
        cm_readFile tget tprune tset d c k = (Inr (value e), d, snd (get_c tget k c)))
   \<and> (fst (get_c tget k c) = None \<longrightarrow>
        (\<forall>content. fst (readFile d k) = Inr content \<longrightarrow>
            cm_readFile tget tprune tset d c k
              = (Inr content, snd (readFile d k),
                 set_c tprune tset k content None (snd (get_c tget k c)))
            \<and> Map_get k (cache (snd (snd (cm_readFile tget tprune tset d c k))))
              = Some \<lparr>value = content, expiry = tset + ttl c, lastAccessed = tset\<rparr>
            \<and> io_log (snd (readFile d k)) = io_log d @ [FsReadFile k])
        \<and> (\<forall>err. fst (readFile d k) = Inl err \<longrightarrow>
            cm_readFile tget tprune tset d c k
              = (Inl err, snd (readFile d k), snd (get_c tget k c))
            \<and> \<not> Map_has k (cache (snd (snd (cm_readFile tget tprune tset d c k))))
            \<and> set (cache (snd (snd (cm_readFile tget tprune tset d c k)))) \<subseteq> set (cache c)))"
proof -
  have hit: "cm_readFile tget tprune tset d c k = (Inr (value e), d, snd (get_c tget k c))"
    if "Map_get k (cache c) = Some e" and "tget < expiry e" for e
    using that by (simp add: cm_readFile_def get_c_def)
  have ok: "cm_readFile tget tprune tset d c k
              = (Inr content, snd (readFile d k),
                 set_c tprune tset k content None (snd (get_c tget k c)))
          \<and> Map_get k (cache (snd (snd (cm_readFile tget tprune tset d c k))))
              = Some \<lparr>value = content, expiry = tset + ttl c, lastAccessed = tset\<rparr>
          \<and> io_log (snd (readFile d k)) = io_log d @ [FsReadFile k]"
    if miss: "fst (get_c tget k c) = None" and rd: "fst (readFile d k) = Inr content" for content
  proof -
    have r: "cm_readFile tget tprune tset d c k
              = (Inr content, snd (readFile d k),
                 set_c tprune tset k content None (snd (get_c tget k c)))"
    proof -
      from miss obtain c' where g: "get_c tget k c = (None, c')" by (cases "get_c tget k c") simp
      from rd obtain d' where f: "readFile d k = (Inr content, d')"
        by (cases "readFile d k") simp
      show ?thesis by (simp add: cm_readFile_def g f)
    qed
    have l: "io_log (snd (readFile d k)) = io_log d @ [FsReadFile k]"
      by (simp add: readFile_def Let_def split: option.splits)
    show ?thesis unfolding r using l by (simp add: set_c_cache Map_get_set)
  qed
  have bad: "cm_readFile tget tprune tset d c k
              = (Inl err, snd (readFile d k), snd (get_c tget k c))
          \<and> \<not> Map_has k (cache (snd (snd (cm_readFile tget tprune tset d c k))))
          \<and> set (cache (snd (snd (cm_readFile tget tprune tset d c k)))) \<subseteq> set (cache c)"
    if miss: "fst (get_c tget k c) = None" and rd: "fst (readFile d k) = Inl err" for err
  proof -
    have r: "cm_readFile tget tprune tset d c k
              = (Inl err, snd (readFile d k), snd (get_c tget k c))"
    proof -
      from miss obtain c' where g: "get_c tget k c = (None, c')" by (cases "get_c tget k c") simp
      from rd obtain d' where f: "readFile d k = (Inl err, d')"
        by (cases "readFile d k") simp
      show ?thesis by (simp add: cm_readFile_def g f)
    qed
    show ?thesis unfolding r
      using get_c_None_absent [OF miss] get_c_None_subset [OF miss] by simp
  qed
  show ?thesis using hit ok bad by blast
qed

text \<open>
  A hit with an empty disk, a miss that reads and caches the file, and a miss on a
  missing file.
\<close>

theorem C6_read_through_cache_witness:
  "Map_get ''f.md'' (cache \<lparr>cache = [(''f.md'', \<lparr>value = ''A'', expiry = 600000, lastAccessed = 0\<rparr>)],
                            maxSize = 50, ttl = 600000\<rparr>)
      = Some \<lparr>value = ''A'', expiry = 600000, lastAccessed = 0\<rparr>
   \<and> (1::int) < expiry \<lparr>value = ''A'', expiry = 600000, lastAccessed = 0\<rparr>
   \<and> cm_readFile 1 1 1 \<lparr>files = Map.empty, read_only = (\<lambda>p. False), io_log = []\<rparr>
        \<lparr>cache = [(''f.md'', \<lparr>value = ''A'', expiry = 600000, lastAccessed = 0\<rparr>)],
         maxSize = 50, ttl = 600000\<rparr> ''f.md''
      = (Inr ''A'', \<lparr>files = Map.empty, read_only = (\<lambda>p. False), io_log = []\<rparr>,
         \<lparr>cache = [(''f.md'', \<lparr>value = ''A'', expiry = 600000, lastAccessed = 1\<rparr>)],
          maxSize = 50, ttl = 600000\<rparr>)
   \<and> fst (get_c 0 ''f.md'' fileCache) = None
   \<and> fst (readFile \<lparr>files = [''f.md'' \<mapsto> ''A''], read_only = (\<lambda>p. False), io_log = []\<rparr> ''f.md'')
      = Inr ''A''
   \<and> fst (cm_readFile 0 0 0
        \<lparr>files = [''f.md'' \<mapsto> ''A''], read_only = (\<lambda>p. False), io_log = []\<rparr> fileCache ''f.md'')
      = Inr ''A''
   \<and> Map_get ''f.md'' (cache (snd (snd (cm_readFile 0 0 0
        \<lparr>files = [''f.md'' \<mapsto> ''A''], read_only = (\<lambda>p. False), io_log = []\<rparr> fileCache ''f.md''))))
      = Some \<lparr>value = ''A'', expiry = 600000, lastAccessed = 0\<rparr>
   \<and> fst (readFile \<lparr>files = Map.empty, read_only = (\<lambda>p. False), io_log = []\<rparr> ''f.md'')
      = Inl (CouldNotReadFile ''f.md'')
   \<and> fst (cm_readFile 0 0 0
        \<lparr>files = Map.empty, read_only = (\<lambda>p. False), io_log = []\<rparr> fileCache ''f.md'')
      = Inl (CouldNotReadFile ''f.md'')
   \<and> \<not> Map_has ''f.md'' (cache (snd (snd (cm_readFile 0 0 0
        \<lparr>files = Map.empty, read_only = (\<lambda>p. False), io_log = []\<rparr> fileCache ''f.md''))))"
proof -
  let ?e = "\<lparr>value = ''A'', expiry = 600000, lastAccessed = 0\<rparr>"
  let ?c = "\<lparr>cache = [(''f.md'', ?e)], maxSize = 50, ttl = 600000\<rparr>"
  let ?d0 = "\<lparr>files = Map.empty, read_only = (\<lambda>p. False), io_log = []\<rparr>"
  let ?d1 = "\<lparr>files = [''f.md'' \<mapsto> ''A''], read_only = (\<lambda>p. False), io_log = []\<rparr>"
  have g: "Map_get ''f.md'' (cache ?c) = Some ?e" by simp
  have x: "(1::int) < expiry ?e" by simp
  have miss: "fst (get_c 0 ''f.md'' fileCache) = None"
    by (simp add: get_c_def fileCache_def new_SmartCache_def)
  have ttl: "ttl fileCache = 600000" by (simp add: fileCache_def new_SmartCache_def)
  have r1: "fst (readFile ?d1 ''f.md'') = Inr ''A''" by (simp add: readFile_def)
  have r0: "fst (readFile ?d0 ''f.md'') = Inl (CouldNotReadFile ''f.md'')"
    by (simp add: readFile_def)
  from C6_read_through_cache [of "''f.md''" ?c 1 1 1 ?d0, THEN conjunct1, rule_format, of ?e] g x
  have hit: "cm_readFile 1 1 1 ?d0 ?c ''f.md'' = (Inr ''A'', ?d0, snd (get_c 1 ''f.md'' ?c))"
    by simp
  note okth = C6_read_through_cache [of "''f.md''" fileCache 0 0 0 ?d1, THEN conjunct2,
      rule_format, OF miss, THEN conjunct1, rule_format, OF r1]
  from okth [THEN conjunct1]
  have ok1: "fst (cm_readFile 0 0 0 ?d1 fileCache ''f.md'') = Inr ''A''" by simp
  from okth [THEN conjunct2, THEN conjunct1]
  have ok2: "Map_get ''f.md'' (cache (snd (snd (cm_readFile 0 0 0 ?d1 fileCache ''f.md''))))
          = Some ?e"
    by (simp add: ttl)
  note ok = ok1 ok2
  note badth = C6_read_through_cache [of "''f.md''" fileCache 0 0 0 ?d0, THEN conjunct2,
      rule_format, OF miss, THEN conjunct2, rule_format, OF r0]
  from badth [THEN conjunct1]
  have bad1: "fst (cm_readFile 0 0 0 ?d0 fileCache ''f.md'') = Inl (CouldNotReadFile ''f.md'')"
    by simp
  note bad2 = badth [THEN conjunct2, THEN conjunct1]
  note bad = bad1 bad2
  have upd: "snd (get_c 1 ''f.md'' ?c)
      = \<lparr>cache = [(''f.md'', \<lparr>value = ''A'', expiry = 600000, lastAccessed = 1\<rparr>)],
         maxSize = 50, ttl = 600000\<rparr>"
    by (simp add: get_c_def)
  from g x hit upd miss r1 ok r0 bad show ?thesis by simp
qed

end
